theory Spec2Isabelle
  imports Main "HOL-Library.Sublist"
begin

section \<open>The file cache of webdataset (src/webdataset/cache.py)\<close>

text \<open>
  A shallow embedding of \<^verbatim>\<open>cache.py\<close>: the naming functions \<^verbatim>\<open>pipe_cleaner\<close> and
  \<^verbatim>\<open>url_to_cache_name\<close>, the eviction sweep \<^verbatim>\<open>LRUCleanup.cleanup\<close>, the downloader
  \<^verbatim>\<open>download\<close>, and the class \<^verbatim>\<open>FileCache\<close> with \<^verbatim>\<open>__init__\<close>, \<^verbatim>\<open>get_file\<close>,
  \<^verbatim>\<open>open_file\<close> and \<^verbatim>\<open>__call__\<close>.

  Python exceptions are values of the type \<open>error\<close>; a function that may raise returns
  \<open>error + 'a\<close> with \<open>Inl\<close> for the exception. The file system, the clock and the remote
  transport are fields of an explicit record \<open>world\<close> that every effectful function takes
  and returns. Python strings and byte strings are \<open>string\<close> (lists of 8-bit characters).
\<close>

subsection \<open>Exceptions\<close>

datatype error =
    AttributeError string
  | TypeError string
  | KeyError string
  | IndexError
  | NameError string
  | ValueError string
  | AssertionError string
  | OSError string
  | FileNotFoundError string
  | TransportError string

text \<open>
  \<^verbatim>\<open>FileNotFoundError\<close> is a subclass of \<^verbatim>\<open>OSError\<close>; the clause
  \<^verbatim>\<open>except (OSError, FileNotFoundError)\<close> of \<^verbatim>\<open>cleanup\<close> catches exactly these two.
\<close>

fun is_OSError :: "error \<Rightarrow> bool" where
  "is_OSError (OSError _) = True"
| "is_OSError (FileNotFoundError _) = True"
| "is_OSError _ = False"

subsection \<open>Python string operations\<close>

definition startswith :: "string \<Rightarrow> string \<Rightarrow> bool" where
  \<comment> \<open>\<^verbatim>\<open>s.startswith(p)\<close>\<close>
  "startswith s p = (take (length p) s = p)"

fun py_split :: "char \<Rightarrow> string \<Rightarrow> string list" where
  \<comment> \<open>\<^verbatim>\<open>s.split(c)\<close> for a one-character separator: consecutive separators give empty words\<close>
  "py_split c [] = [[]]"
| "py_split c (x # xs) =
     (if x = c then [] # py_split c xs
      else (case py_split c xs of
              [] \<Rightarrow> [[x]]
            | w # ws \<Rightarrow> (x # w) # ws))"

fun py_join :: "string \<Rightarrow> string list \<Rightarrow> string" where
  \<comment> \<open>\<^verbatim>\<open>sep.join(items)\<close>\<close>
  "py_join sep [] = []"
| "py_join sep [x] = x"
| "py_join sep (x # y # ys) = x @ sep @ py_join sep (y # ys)"

definition str_items :: "string \<Rightarrow> string list" where
  \<comment> \<open>iterating over a Python \<^verbatim>\<open>str\<close> yields its characters as one-character strings\<close>
  "str_items s = map (\<lambda>c. [c]) s"

definition py_index :: "'a list \<Rightarrow> int \<Rightarrow> error + 'a" where
  \<comment> \<open>\<^verbatim>\<open>xs[i]\<close>: a negative index counts from the end, out of range raises \<^verbatim>\<open>IndexError\<close>\<close>
  "py_index xs i =
     (if 0 \<le> i \<and> i < int (length xs) then Inr (xs ! nat i)
      else if i < 0 \<and> - int (length xs) \<le> i then Inr (xs ! nat (int (length xs) + i))
      else Inl IndexError)"

definition py_drop :: "nat \<Rightarrow> string \<Rightarrow> string" where
  \<comment> \<open>\<^verbatim>\<open>s[n:]\<close>\<close>
  "py_drop n s = drop n s"

subsection \<open>pipe_cleaner\<close>

definition scheme_prefixes :: "string list" where
  \<comment> \<open>the words beginning the regular expression \<^verbatim>\<open>^(https?|hdfs|gs|ais|s3):\<close> accepts\<close>
  "scheme_prefixes = [''http:'', ''https:'', ''hdfs:'', ''gs:'', ''ais:'', ''s3:'']"

definition re_match_scheme :: "string \<Rightarrow> bool" where
  \<comment> \<open>\<^verbatim>\<open>re.match(r"^(https?|hdfs|gs|ais|s3):", word)\<close> is not \<^verbatim>\<open>None\<close>\<close>
  "re_match_scheme word = list_ex (startswith word) scheme_prefixes"

definition pipe_cleaner :: "string \<Rightarrow> string" where
  "pipe_cleaner spec =
     (if startswith spec ''pipe:'' then
        (let spec' = py_drop 5 spec;
             words = py_split (CHR '' '') spec'
         in case find re_match_scheme words of
              Some word \<Rightarrow> word
            | None \<Rightarrow> spec')
      else spec)"

subsection \<open>urlparse\<close>

text \<open>
  \<^verbatim>\<open>urllib.parse.urlparse\<close> belongs to the Python standard library, not to this
  repository. The cache reads two components of its result, \<^verbatim>\<open>scheme\<close> and \<^verbatim>\<open>path\<close>;
  the model follows the library's \<^verbatim>\<open>urlsplit\<close> and \<^verbatim>\<open>_splitparams\<close> for these two:
  leading control characters and spaces are stripped, tabs and line breaks removed, a
  leading run of scheme characters before the first colon is the (lower-cased) scheme,
  a network location after \<^verbatim>\<open>//\<close> runs up to the next \<^verbatim>\<open>/\<close>, \<^verbatim>\<open>?\<close> or \<^verbatim>\<open>#\<close>, the
  fragment, the query and (for the schemes that use them) the parameters of the last
  segment are cut off the path. An unbalanced bracket in the network location raises
  \<^verbatim>\<open>ValueError\<close>. The library's further validation of a bracketed IPv6 host and of
  non-ASCII network locations is not modelled.
\<close>

record parse_result =
  scheme :: string
  path :: string

definition ascii_uppercase :: string where
  "ascii_uppercase = ''ABCDEFGHIJKLMNOPQRSTUVWXYZ''"

definition ascii_lowercase :: string where
  "ascii_lowercase = ''abcdefghijklmnopqrstuvwxyz''"

definition ascii_lower :: "char \<Rightarrow> char" where
  "ascii_lower c = (case map_of (zip ascii_uppercase ascii_lowercase) c of
                      Some d \<Rightarrow> d | None \<Rightarrow> c)"

definition scheme_chars :: string where
  "scheme_chars = ascii_lowercase @ ascii_uppercase @ ''0123456789+-.''"

definition uses_params :: "string list" where
  "uses_params = ['''', ''ftp'', ''hdl'', ''prospero'', ''http'', ''imap'', ''https'',
     ''shttp'', ''rtsp'', ''rtspu'', ''sip'', ''sips'', ''mms'', ''sftp'', ''tel'']"

definition strip_url :: "string \<Rightarrow> string" where
  \<comment> \<open>\<^verbatim>\<open>url.lstrip(C0 control or space)\<close>, then tab, carriage return and line feed removed\<close>
  "strip_url url =
     filter (\<lambda>c. c \<notin> set [char_of (9::nat), char_of (10::nat), char_of (13::nat)])
       (dropWhile (\<lambda>c. (of_char c :: nat) \<le> 32) url)"

definition split_scheme :: "string \<Rightarrow> string \<times> string" where
  \<comment> \<open>the scheme before the first colon, if every character of it is a scheme character
      and the first one a letter; otherwise no scheme\<close>
  "split_scheme url =
     (let h = takeWhile (\<lambda>c. c \<noteq> CHR '':'') url in
      if CHR '':'' \<in> set url \<and> h \<noteq> []
         \<and> hd h \<in> set (ascii_lowercase @ ascii_uppercase)
         \<and> list_all (\<lambda>c. c \<in> set scheme_chars) h
      then (map ascii_lower h, drop (length h + 1) url)
      else ('''', url))"

definition split_netloc :: "string \<Rightarrow> string \<times> string" where
  "split_netloc url =
     (if take 2 url = ''//'' then
        (takeWhile (\<lambda>c. c \<notin> set ''/?#'') (drop 2 url),
         dropWhile (\<lambda>c. c \<notin> set ''/?#'') (drop 2 url))
      else ('''', url))"

definition split_params :: "string \<Rightarrow> string" where
  \<comment> \<open>\<^verbatim>\<open>_splitparams(url)[0]\<close>: the parameters of the last path segment are cut off\<close>
  "split_params url =
     (let tail = rev (takeWhile (\<lambda>c. c \<noteq> CHR ''/'') (rev url));
          front = take (length url - length tail) url
      in front @ takeWhile (\<lambda>c. c \<noteq> CHR '';'') tail)"

definition urlparse :: "string \<Rightarrow> error + parse_result" where
  "urlparse url0 =
     (let (sch, u1) = split_scheme (strip_url url0);
          (netloc, u2) = split_netloc u1
      in if (CHR ''['' \<in> set netloc \<and> CHR '']'' \<notin> set netloc)
            \<or> (CHR '']'' \<in> set netloc \<and> CHR ''['' \<notin> set netloc)
         then Inl (ValueError ''Invalid IPv6 URL'')
         else
           (let u3 = takeWhile (\<lambda>c. c \<noteq> CHR ''#'') u2;
                u4 = takeWhile (\<lambda>c. c \<noteq> CHR ''?'') u3;
                u5 = (if sch \<in> set uses_params then split_params u4 else u4)
            in Inr \<lparr>scheme = sch, path = u5\<rparr>))"

subsection \<open>url_to_cache_name\<close>

definition cacheable_schemes :: "string list" where
  \<comment> \<open>the list the source tests \<^verbatim>\<open>parsed.scheme\<close> against (\<^verbatim>\<open>None\<close> is never a scheme)\<close>
  "cacheable_schemes =
     ['''', ''file'', ''http'', ''https'', ''ftp'', ''ftps'', ''gs'', ''s3'', ''ais'']"

definition url_to_cache_name :: "string \<Rightarrow> int \<Rightarrow> error + string" where
  \<comment> \<open>The source indexes the list of segments with \<^verbatim>\<open>[-1 - ndir]\<close> (one segment, a
      string) and joins the items of that string, its characters. In the other branch
      the name \<^verbatim>\<open>urllib\<close> is unbound: the module imports
      \<^verbatim>\<open>from urllib.parse import urlparse\<close> only.\<close>
  "url_to_cache_name url ndir =
     (case urlparse url of
        Inl e \<Rightarrow> Inl e
      | Inr parsed \<Rightarrow>
          if scheme parsed \<in> set cacheable_schemes then
            (let path = path parsed;
                 list_of_directories = py_split (CHR ''/'') path
             in case py_index list_of_directories (- 1 - ndir) of
                  Inl e \<Rightarrow> Inl e
                | Inr segment \<Rightarrow> Inr (py_join ''/'' (str_items segment)))
          else Inl (NameError ''urllib''))"

subsection \<open>The environment: file system, clock, transport\<close>

text \<open>
  The file system is flat: the regular files are an association list from path to file,
  in the order in which a directory walk enumerates them, and the directories are a list
  of paths. Paths are compared as strings once trailing slashes are removed; \<^verbatim>\<open>.\<close>,
  \<^verbatim>\<open>..\<close>, repeated slashes and links are not resolved. The model is sequential: between two
  operations of the program no other process touches the file system.

  \<open>log\<close> records, in order, the calls the program makes to the operations the theorems talk
  about, and what it prints on standard error. No function of the model reads it.
\<close>

record regular_file =
  content :: string
  ctime :: int

datatype event =
    Call_cleanup
  | Call_download string string
  | Call_validator string
  | Call_handler error
  | Call_remove string
  | Stderr string

record world =
  files :: "(string \<times> regular_file) list"
  dirs :: "string list"
  clock :: "nat \<Rightarrow> int"
  ticks :: nat
  remote :: "string \<Rightarrow> error + (error + string) list"
  disk_free :: nat
  file_cmd :: "(string \<Rightarrow> string) option"
  pid :: nat
  log :: "event list"

definition emit :: "event \<Rightarrow> world \<Rightarrow> world" where
  "emit e w = w\<lparr>log := log w @ [e]\<rparr>"

definition time_time :: "world \<Rightarrow> int \<times> world" where
  \<comment> \<open>\<^verbatim>\<open>time.time()\<close>: every call reads the next value of the clock\<close>
  "time_time w = (clock w (ticks w), w\<lparr>ticks := Suc (ticks w)\<rparr>)"

definition rstrip_slash :: "string \<Rightarrow> string" where
  "rstrip_slash p = rev (dropWhile (\<lambda>c. c = CHR ''/'') (rev p))"

definition is_file :: "world \<Rightarrow> string \<Rightarrow> bool" where
  "is_file w p = (map_of (files w) p \<noteq> None)"

definition is_dir :: "world \<Rightarrow> string \<Rightarrow> bool" where
  \<comment> \<open>the root directory always exists\<close>
  "is_dir w p = (p \<noteq> [] \<and> (rstrip_slash p = [] \<or> rstrip_slash p \<in> set (dirs w)))"

definition os_path_exists :: "world \<Rightarrow> string \<Rightarrow> bool" where
  "os_path_exists w p = (is_file w p \<or> is_dir w p)"

definition os_path_getsize :: "world \<Rightarrow> string \<Rightarrow> error + nat" where
  \<comment> \<open>the size of a regular file; the size of a directory entry is not modelled\<close>
  "os_path_getsize w p =
     (case map_of (files w) p of
        Some f \<Rightarrow> Inr (length (content f))
      | None \<Rightarrow> if is_dir w p then Inr 0 else Inl (FileNotFoundError p))"

type_synonym key_function = "(string \<Rightarrow> regular_file option) \<Rightarrow> string \<Rightarrow> error + int"

definition os_path_getctime :: key_function where
  \<comment> \<open>a key function reads the file system (the first argument) at the path it is given\<close>
  "os_path_getctime fs p =
     (case fs p of
        Some f \<Rightarrow> Inr (ctime f)
      | None \<Rightarrow> Inl (FileNotFoundError p))"

definition os_remove :: "string \<Rightarrow> world \<Rightarrow> error + world" where
  "os_remove p w =
     (if is_file w p
      then Inr (emit (Call_remove p) (w\<lparr>files := filter (\<lambda>e. fst e \<noteq> p) (files w)\<rparr>))
      else if is_dir w p then Inl (OSError p)
      else Inl (FileNotFoundError p))"

definition os_path_join :: "string \<Rightarrow> string \<Rightarrow> string" where
  \<comment> \<open>\<^verbatim>\<open>posixpath.join(a, b)\<close>\<close>
  "os_path_join a b =
     (if startswith b ''/'' then b
      else if a = [] \<or> last a = CHR ''/'' then a @ b
      else a @ ''/'' @ b)"

definition os_path_dirname :: "string \<Rightarrow> string" where
  \<comment> \<open>\<^verbatim>\<open>posixpath.dirname(p)\<close>: up to the last slash, trailing slashes removed unless the
      head consists of slashes only\<close>
  "os_path_dirname p =
     (let tail = rev (takeWhile (\<lambda>c. c \<noteq> CHR ''/'') (rev p));
          head = take (length p - length tail) p
      in if head \<noteq> [] \<and> \<not> list_all (\<lambda>c. c = CHR ''/'') head
         then rstrip_slash head else head)"

definition is_under :: "string \<Rightarrow> string \<Rightarrow> bool" where
  \<comment> \<open>\<open>p\<close> is \<^verbatim>\<open>os.path.join(dirpath, filename)\<close> for a directory \<open>dirpath\<close> at or below \<open>start\<close>\<close>
  "is_under start p =
     (let pre = os_path_join start [] in
      startswith p pre \<and> length pre < length p)"

definition os_walk_files :: "world \<Rightarrow> string \<Rightarrow> string list" where
  \<comment> \<open>the paths \<^verbatim>\<open>os.path.join(dirpath, filename)\<close> over all \<^verbatim>\<open>dirpath, dirnames, filenames\<close>
      of \<^verbatim>\<open>os.walk(start)\<close>, in the order of the walk\<close>
  "os_walk_files w start = filter (is_under start) (map fst (files w))"

subsection \<open>LRUCleanup\<close>

record LRUCleanup =
  cache_dir :: "string option"
  cache_size :: int
  keyfn :: key_function
  verbose :: bool
  interval :: "int option"
  last_run :: int

definition LRUCleanup_init ::
  "string option \<Rightarrow> int \<Rightarrow> key_function \<Rightarrow> bool \<Rightarrow> int option \<Rightarrow> LRUCleanup" where
  "LRUCleanup_init cache_dir' cache_size' keyfn' verbose' interval' =
     \<lparr>cache_dir = cache_dir', cache_size = cache_size', keyfn = keyfn', verbose = verbose',
      interval = interval', last_run = 0\<rparr>"

definition set_cache_dir :: "LRUCleanup \<Rightarrow> string option \<Rightarrow> LRUCleanup" where
  "set_cache_dir self cache_dir' = self\<lparr>cache_dir := cache_dir'\<rparr>"

fun sum_sizes :: "world \<Rightarrow> string list \<Rightarrow> int \<Rightarrow> error + int" where
  \<comment> \<open>the first walk: \<^verbatim>\<open>total_size += os.path.getsize(...)\<close> for every file\<close>
  "sum_sizes w [] total_size = Inr total_size"
| "sum_sizes w (f # fs) total_size =
     (case os_path_getsize w f of
        Inl e \<Rightarrow> Inl e
      | Inr n \<Rightarrow> sum_sizes w fs (total_size + int n))"

fun keys_of :: "(string \<Rightarrow> error + int) \<Rightarrow> string list \<Rightarrow> error + (int \<times> string) list" where
  \<comment> \<open>\<^verbatim>\<open>list.sort(key=...)\<close> first computes the key of every item, in order\<close>
  "keys_of k [] = Inr []"
| "keys_of k (f # fs) =
     (case k f of
        Inl e \<Rightarrow> Inl e
      | Inr x \<Rightarrow> (case keys_of k fs of
                   Inl e \<Rightarrow> Inl e
                 | Inr kfs \<Rightarrow> Inr ((x, f) # kfs)))"

definition sort_reverse :: "(string \<Rightarrow> error + int) \<Rightarrow> string list \<Rightarrow> error + string list" where
  \<comment> \<open>\<^verbatim>\<open>files.sort(key=k, reverse=True)\<close>: Python reverses the list, sorts it stably in
      ascending order of the keys and reverses the result\<close>
  "sort_reverse k fs =
     (case keys_of k fs of
        Inl e \<Rightarrow> Inl e
      | Inr kfs \<Rightarrow> Inr (map snd (rev (sort_key fst (rev kfs)))))"

fun delete_loop :: "LRUCleanup \<Rightarrow> string list \<Rightarrow> int \<Rightarrow> world \<Rightarrow> (error + unit) \<times> world" where
  \<comment> \<open>The \<^verbatim>\<open>while\<close> loop. The second argument is the list \<^verbatim>\<open>files\<close> reversed, so that
      \<^verbatim>\<open>files.pop()\<close>, which takes the last item, takes the head.\<close>
  "delete_loop self [] total_size w = (Inr (), w)"
| "delete_loop self (fname # rest) total_size w =
     (if total_size > cache_size self then
        (case os_path_getsize w fname of
           Inl e \<Rightarrow> (Inl e, w)
         | Inr n \<Rightarrow>
             (let w1 = (if verbose self then emit (Stderr (''# deleting '' @ fname)) w else w)
              in case os_remove fname w1 of
                   Inl e \<Rightarrow> (Inl e, w1)
                 | Inr w2 \<Rightarrow> delete_loop self rest (total_size - int n) w2))
      else (Inr (), w))"

datatype try_outcome = Returned | Completed

definition scan_and_delete :: "LRUCleanup \<Rightarrow> string \<Rightarrow> world \<Rightarrow> (error + try_outcome) \<times> world" where
  \<comment> \<open>The body of the \<^verbatim>\<open>try\<close> statement: \<open>Returned\<close> when it leaves the function by the
      \<^verbatim>\<open>return\<close> inside it, \<open>Completed\<close> when control reaches its end.\<close>
  "scan_and_delete self d w =
     (case sum_sizes w (os_walk_files w d) 0 of
        Inl e \<Rightarrow> (Inl e, w)
      | Inr total_size \<Rightarrow>
          if total_size \<le> cache_size self then (Inr Returned, w)
          else
            (case sort_reverse (keyfn self (map_of (files w))) (os_walk_files w d) of
               Inl e \<Rightarrow> (Inl e, w)
             | Inr sorted_files \<Rightarrow>
                 (case delete_loop self (rev sorted_files) total_size w of
                    (Inl e, w') \<Rightarrow> (Inl e, w')
                  | (Inr _, w') \<Rightarrow> (Inr Completed, w'))))"

definition cleanup :: "LRUCleanup \<Rightarrow> world \<Rightarrow> (error + unit) \<times> LRUCleanup \<times> world" where
  \<comment> \<open>\<^verbatim>\<open>os.path.exists(None)\<close> raises \<^verbatim>\<open>TypeError\<close>. \<^verbatim>\<open>time.time()\<close> in the guard is read
      only when \<^verbatim>\<open>interval\<close> is not \<^verbatim>\<open>None\<close>. An \<^verbatim>\<open>OSError\<close> of the body is swallowed
      and control reaches the last statement; any other exception propagates; the
      \<^verbatim>\<open>return\<close> inside the body leaves the function at once.\<close>
  "cleanup self w =
     (case cache_dir self of
        None \<Rightarrow> (Inl (TypeError ''stat: path should be string, not NoneType''), self, w)
      | Some d \<Rightarrow>
          if \<not> os_path_exists w d then (Inr (), self, w)
          else
            (let (too_early, w1) =
                   (case interval self of
                      None \<Rightarrow> (False, w)
                    | Some i \<Rightarrow> (let (now, w') = time_time w in (now - last_run self < i, w')))
             in if too_early then (Inr (), self, w1)
                else
                  (case scan_and_delete self d w1 of
                     (Inr Returned, w2) \<Rightarrow> (Inr (), self, w2)
                   | (Inr Completed, w2) \<Rightarrow>
                       (let (now, w3) = time_time w2 in (Inr (), self\<lparr>last_run := now\<rparr>, w3))
                   | (Inl e, w2) \<Rightarrow>
                       if is_OSError e
                       then (let (now, w3) = time_time w2 in (Inr (), self\<lparr>last_run := now\<rparr>, w3))
                       else (Inl e, self, w2))))"

subsection \<open>Observations on the environment\<close>

definition size_of :: "world \<Rightarrow> string \<Rightarrow> int" where
  \<comment> \<open>the size of the regular file at a path, 0 when there is none\<close>
  "size_of w p = (case map_of (files w) p of Some f \<Rightarrow> int (length (content f)) | None \<Rightarrow> 0)"

definition total_size_under :: "world \<Rightarrow> string \<Rightarrow> int" where
  \<comment> \<open>the total size of the regular files at or below a directory\<close>
  "total_size_under w d =
     sum_list (map (\<lambda>e. int (length (content (snd e)))) (filter (\<lambda>e. is_under d (fst e)) (files w)))"

definition key_of :: "LRUCleanup \<Rightarrow> world \<Rightarrow> string \<Rightarrow> int" where
  \<comment> \<open>the recency key of a path, 0 when the key function raises\<close>
  "key_of self w p = (case keyfn self (map_of (files w)) p of Inr x \<Rightarrow> x | Inl _ \<Rightarrow> 0)"

definition has_key :: "LRUCleanup \<Rightarrow> world \<Rightarrow> string \<Rightarrow> bool" where
  "has_key self w p = (case keyfn self (map_of (files w)) p of Inr _ \<Rightarrow> True | Inl _ \<Rightarrow> False)"

fun removals :: "event list \<Rightarrow> string list" where
  \<comment> \<open>the paths removed, in the order of the calls of \<^verbatim>\<open>os.remove\<close>\<close>
  "removals [] = []"
| "removals (Call_remove p # es) = p # removals es"
| "removals (_ # es) = removals es"

definition new_events :: "world \<Rightarrow> world \<Rightarrow> event list" where
  \<comment> \<open>what a run from \<open>w\<close> to \<open>w'\<close> has added to the log\<close>
  "new_events w w' = drop (length (log w)) (log w')"

definition guard_passes :: "LRUCleanup \<Rightarrow> world \<Rightarrow> bool" where
  \<comment> \<open>the interval guard of \<^verbatim>\<open>cleanup\<close> does not return early\<close>
  "guard_passes self w =
     (case interval self of
        None \<Rightarrow> True
      | Some i \<Rightarrow> \<not> (clock w (ticks w) - last_run self < i))"

subsection \<open>The effect of a sweep, for the statements below\<close>

definition pop_order :: "LRUCleanup \<Rightarrow> world \<Rightarrow> string \<Rightarrow> string list" where
  \<comment> \<open>the order in which the loop pops the files: the sorted list, from its end\<close>
  "pop_order self w d = sort_key (key_of self w) (rev (os_walk_files w d))"

definition deletion_events :: "LRUCleanup \<Rightarrow> string list \<Rightarrow> event list" where
  \<comment> \<open>what the loop logs when it deletes the given files in order\<close>
  "deletion_events self ps =
     concat (map (\<lambda>p. (if verbose self then [Stderr (''# deleting '' @ p)] else []) @ [Call_remove p]) ps)"

definition after_removal :: "LRUCleanup \<Rightarrow> string list \<Rightarrow> world \<Rightarrow> world" where
  \<comment> \<open>the environment once the loop has deleted the given files\<close>
  "after_removal self ps w =
     w\<lparr>files := filter (\<lambda>e. fst e \<notin> set ps) (files w), log := log w @ deletion_events self ps\<rparr>"

definition after_guard :: "LRUCleanup \<Rightarrow> world \<Rightarrow> world" where
  \<comment> \<open>the environment once the interval guard has read the clock\<close>
  "after_guard self w = (case interval self of None \<Rightarrow> w | Some i \<Rightarrow> snd (time_time w))"

subsection \<open>File operations used by the downloader and the cache\<close>

fun put_file :: "string \<Rightarrow> regular_file \<Rightarrow> (string \<times> regular_file) list \<Rightarrow> (string \<times> regular_file) list" where
  \<comment> \<open>the entry of a path is replaced where it stands; a new path is listed last\<close>
  "put_file p f [] = [(p, f)]"
| "put_file p f (e # es) = (if fst e = p then (p, f) # es else e # put_file p f es)"

definition open_wb :: "string \<Rightarrow> world \<Rightarrow> error + world" where
  \<comment> \<open>\<^verbatim>\<open>open(p, "wb")\<close>: the file is created, or truncated when it exists. It fails on a
      directory and when the parent directory does not exist.\<close>
  "open_wb p w =
     (if is_dir w p then Inl (OSError (''Is a directory: '' @ p))
      else if os_path_dirname p \<noteq> [] \<and> \<not> is_dir w (os_path_dirname p)
      then Inl (FileNotFoundError p)
      else Inr (w\<lparr>files := put_file p \<lparr>content = [], ctime = clock w (ticks w)\<rparr> (files w)\<rparr>))"

definition file_write :: "string \<Rightarrow> string \<Rightarrow> world \<Rightarrow> error + world" where
  \<comment> \<open>\<^verbatim>\<open>f.write(data)\<close> on the file opened at \<open>p\<close>: the data is appended, unless it exceeds
      the free space of the disk (\<open>disk_free\<close>, the bytes that can still be written)\<close>
  "file_write p data w =
     (if length data > disk_free w then Inl (OSError ''No space left on device'')
      else (case map_of (files w) p of
              None \<Rightarrow> Inr (w\<lparr>disk_free := disk_free w - length data\<rparr>)
            | Some f \<Rightarrow>
                Inr (w\<lparr>files := put_file p (f\<lparr>content := content f @ data\<rparr>) (files w),
                       disk_free := disk_free w - length data\<rparr>)))"

definition os_rename :: "string \<Rightarrow> string \<Rightarrow> world \<Rightarrow> error + world" where
  \<comment> \<open>\<^verbatim>\<open>os.rename(src, dst)\<close>: the file at \<open>src\<close> takes the path \<open>dst\<close>, replacing a file there\<close>
  "os_rename src dst w =
     (case map_of (files w) src of
        None \<Rightarrow> Inl (FileNotFoundError src)
      | Some f \<Rightarrow>
          if is_dir w dst then Inl (OSError (''Is a directory: '' @ dst))
          else Inr (w\<lparr>files := put_file dst f (filter (\<lambda>e. fst e \<noteq> src) (files w))\<rparr>))"

definition path_prefixes :: "string \<Rightarrow> string list" where
  \<comment> \<open>a directory path and the directories above it, without trailing slashes\<close>
  "path_prefixes d =
     remdups (filter (\<lambda>p. p \<noteq> [])
       (map rstrip_slash (d # map (\<lambda>i. take i d) (filter (\<lambda>i. d ! i = CHR ''/'') [0..<length d]))))"

definition os_makedirs :: "string \<Rightarrow> world \<Rightarrow> error + world" where
  \<comment> \<open>\<^verbatim>\<open>os.makedirs(d, exist_ok=True)\<close>: the directory and the missing ones above it are
      created; it fails on the empty path and when a regular file is in the way\<close>
  "os_makedirs d w =
     (if d = [] then Inl (FileNotFoundError d)
      else if list_ex (is_file w) (path_prefixes d) then Inl (OSError (''File exists: '' @ d))
      else Inr (w\<lparr>dirs := dirs w @ filter (\<lambda>p. p \<notin> set (dirs w)) (path_prefixes d)\<rparr>))"

record stream =
  stream_name :: string
  stream_data :: string

definition open_rb :: "string \<Rightarrow> world \<Rightarrow> error + stream" where
  \<comment> \<open>\<^verbatim>\<open>open(p, "rb")\<close>: a stream over the bytes the file holds\<close>
  "open_rb p w =
     (case map_of (files w) p of
        Some f \<Rightarrow> Inr \<lparr>stream_name = p, stream_data = content f\<rparr>
      | None \<Rightarrow> if is_dir w p then Inl (OSError (''Is a directory: '' @ p))
                else Inl (FileNotFoundError p))"

subsection \<open>download\<close>

text \<open>
  \<^verbatim>\<open>gopen.gopen(url)\<close> is the transport, an external collaborator: \<open>remote w url\<close> is
  either the exception it raises or the stream it opens, given as the results of the
  successive calls of \<^verbatim>\<open>stream.read(chunk_size)\<close>: each a chunk of bytes or an exception.
  Once the list is used up, \<^verbatim>\<open>read\<close> returns the empty byte string. A stream delivers
  finitely many chunks; the transport cuts them, each of at most \<^verbatim>\<open>chunk_size\<close> bytes.
\<close>

fun digits :: "nat \<Rightarrow> string" where
  \<comment> \<open>\<^verbatim>\<open>str(n)\<close> of a natural number\<close>
  "digits n =
     (if n < 10 then [''0123456789'' ! n]
      else digits (n div 10) @ [''0123456789'' ! (n mod 10)])"

definition temp_name :: "world \<Rightarrow> string \<Rightarrow> string" where
  \<comment> \<open>\<^verbatim>\<open>dest + f".temp{os.getpid()}"\<close>\<close>
  "temp_name w dest = dest @ ''.temp'' @ digits (pid w)"

fun copy_loop :: "string \<Rightarrow> (error + string) list \<Rightarrow> world \<Rightarrow> (error + unit) \<times> world" where
  \<comment> \<open>the \<^verbatim>\<open>while True\<close> loop: read a chunk, stop at an empty one, write it\<close>
  "copy_loop temp [] w = (Inr (), w)"
| "copy_loop temp (Inl e # reads) w = (Inl e, w)"
| "copy_loop temp (Inr data # reads) w =
     (if data = [] then (Inr (), w)
      else (case file_write temp data w of
              Inl e \<Rightarrow> (Inl e, w)
            | Inr w' \<Rightarrow> copy_loop temp reads w'))"

definition download :: "string \<Rightarrow> string \<Rightarrow> world \<Rightarrow> (error + unit) \<times> world" where
  \<comment> \<open>\<^verbatim>\<open>download(url, dest)\<close>; the parameters \<^verbatim>\<open>chunk_size\<close> and \<^verbatim>\<open>verbose\<close> have no
      effect of their own in the model\<close>
  "download url dest w0 =
     (let w = emit (Call_download url dest) w0;
          temp = temp_name w dest
      in case remote w url of
           Inl e \<Rightarrow> (Inl e, w)
         | Inr reads \<Rightarrow>
             (case open_wb temp w of
                Inl e \<Rightarrow> (Inl e, w)
              | Inr w1 \<Rightarrow>
                  (case copy_loop temp reads w1 of
                     (Inl e, w2) \<Rightarrow> (Inl e, w2)
                   | (Inr _, w2) \<Rightarrow>
                       (case os_rename temp dest w2 of
                          Inl e \<Rightarrow> (Inl e, w2)
                        | Inr w3 \<Rightarrow> (Inr (), w3)))))"

subsection \<open>The validator\<close>

fun contains :: "string \<Rightarrow> string \<Rightarrow> bool" where
  \<comment> \<open>\<^verbatim>\<open>sub in s\<close> for strings\<close>
  "contains sub [] = (sub = [])"
| "contains sub (c # cs) = (startswith (c # cs) sub \<or> contains sub cs)"

definition get_filetype :: "world \<Rightarrow> string \<Rightarrow> error + string" where
  \<comment> \<open>The \<^verbatim>\<open>file\<close> utility is external: \<open>file_cmd w\<close> is \<open>None\<close> when it is not
      available, and otherwise maps the bytes of a file to its description.\<close>
  "get_filetype w fname =
     (case file_cmd w of
        None \<Rightarrow> Inl (AssertionError ''UNIX/Linux file command not available'')
      | Some describe \<Rightarrow>
          (case map_of (files w) fname of
             Some f \<Rightarrow> Inr (fname @ '': '' @ describe (content f))
           | None \<Rightarrow> Inr (fname @ '': cannot open (No such file or directory)'')))"

definition check_tar_format :: "world \<Rightarrow> string \<Rightarrow> error + bool" where
  "check_tar_format w fname =
     (case get_filetype w fname of
        Inl e \<Rightarrow> Inl e
      | Inr ftype \<Rightarrow> Inr (contains ''tar archive'' ftype \<or> contains ''gzip compressed'' ftype))"

subsection \<open>FileCache: construction\<close>

text \<open>
  While \<^verbatim>\<open>__init__\<close> runs, the instance is a dictionary of attributes: an assignment
  \<^verbatim>\<open>self.x = v\<close> adds an entry, and reading an attribute that has no entry raises
  \<^verbatim>\<open>AttributeError\<close>. The class \<^verbatim>\<open>FileCache\<close> has no attribute of its own besides its
  methods.
\<close>

datatype pyval =
    PNone
  | PBool bool
  | PInt int
  | PStr string
  | PNamer "string \<Rightarrow> error + string"
  | PValidator "world \<Rightarrow> string \<Rightarrow> error + bool"
  | PHandler "error \<Rightarrow> error + bool"
  | PCleaner LRUCleanup

type_synonym pyobject = "string \<Rightarrow> pyval option"

definition getattr :: "pyobject \<Rightarrow> string \<Rightarrow> error + pyval" where
  "getattr self name = (case self name of None \<Rightarrow> Inl (AttributeError name) | Some v \<Rightarrow> Inr v)"

definition setattr :: "pyobject \<Rightarrow> string \<Rightarrow> pyval \<Rightarrow> pyobject" where
  "setattr self name v = self(name \<mapsto> v)"

definition default_cache_dir :: "string option \<Rightarrow> string" where
  \<comment> \<open>\<^verbatim>\<open>os.environ.get("WDS_CACHE", "./_cache")\<close>; the argument is the variable's value\<close>
  "default_cache_dir env = (case env of None \<Rightarrow> ''./_cache'' | Some v \<Rightarrow> v)"

definition new_LRUCleanup :: "pyval \<Rightarrow> pyval \<Rightarrow> pyval \<Rightarrow> int option \<Rightarrow> error + LRUCleanup" where
  \<comment> \<open>\<^verbatim>\<open>LRUCleanup(cache_dir, cache_size, verbose=..., interval=...)\<close> on attribute values,
      with the default key function\<close>
  "new_LRUCleanup d n v i =
     (case (d, n, v) of
        (PStr d', PInt n', PBool v') \<Rightarrow>
          Inr (LRUCleanup_init (Some d') n' os_path_getctime v' i)
      | _ \<Rightarrow> Inl (TypeError ''LRUCleanup''))"

definition FileCache_init ::
  "string option \<Rightarrow> (string \<Rightarrow> error + string) \<Rightarrow> string option \<Rightarrow> bool
     \<Rightarrow> (world \<Rightarrow> string \<Rightarrow> error + bool) option
     \<Rightarrow> (error \<Rightarrow> error + bool) \<Rightarrow> int \<Rightarrow> int option \<Rightarrow> error + pyobject" where
  \<comment> \<open>\<^verbatim>\<open>FileCache.__init__\<close>. The first argument is the value of the environment
      variable \<^verbatim>\<open>WDS_CACHE\<close>; the others are the parameters in the order of the source. The
      arguments of \<^verbatim>\<open>LRUCleanup(...)\<close> are evaluated from left to right.\<close>
  "FileCache_init env url_to_name' cache_dir' verbose' validator' handler' cache_size'
       cache_cleanup_interval =
     (let self0 = (\<lambda>name. None);
          self1 = setattr self0 ''url_to_name'' (PNamer url_to_name');
          self2 = setattr self1 ''validator''
                    (case validator' of None \<Rightarrow> PNone | Some v \<Rightarrow> PValidator v);
          self3 = setattr self2 ''handler'' (PHandler handler');
          self4 = (case cache_dir' of
                     None \<Rightarrow> setattr self3 ''cache_dir'' (PStr (default_cache_dir env))
                   | Some d \<Rightarrow> setattr self3 ''cache_dir'' (PStr d));
          self5 = setattr self4 ''verbose'' (PBool verbose')
      in if cache_size' > 0 then
           (case getattr self5 ''cache_dir'' of
              Inl e \<Rightarrow> Inl e
            | Inr d \<Rightarrow>
                (case getattr self5 ''cache_size'' of
                   Inl e \<Rightarrow> Inl e
                 | Inr n \<Rightarrow>
                     (case getattr self5 ''verbose'' of
                        Inl e \<Rightarrow> Inl e
                      | Inr v \<Rightarrow>
                          (case new_LRUCleanup d n v cache_cleanup_interval of
                             Inl e \<Rightarrow> Inl e
                           | Inr c \<Rightarrow> Inr (setattr self5 ''cleaner'' (PCleaner c))))))
         else Inr (setattr self5 ''cleaner'' PNone))"

subsection \<open>FileCache: the methods\<close>

text \<open>
  The methods work on the attributes of a constructed instance. \<open>validator\<close> is \<open>None\<close>
  for a validator that is false in a condition (\<^verbatim>\<open>None\<close>); \<open>cleaner\<close> is \<open>None\<close> for
  \<^verbatim>\<open>self.cleaner is None\<close>; \<open>last_path\<close> is \<open>None\<close> as long as \<^verbatim>\<open>open_file\<close> has not set the
  attribute. A validator and a name mapper read their arguments and change nothing.
\<close>

record FileCache =
  url_to_name :: "string \<Rightarrow> error + string"
  validator :: "(world \<Rightarrow> string \<Rightarrow> error + bool) option"
  handler :: "error \<Rightarrow> error + bool"
  cache_dir_of :: string
  verbose_of :: bool
  cleaner :: "LRUCleanup option"
  last_path :: "string option"

definition FileCache_of :: "pyobject \<Rightarrow> FileCache option" where
  \<comment> \<open>the instance a dictionary of attributes stands for, if it has the attributes
      \<^verbatim>\<open>__init__\<close> assigns\<close>
  "FileCache_of self =
     (case (self ''url_to_name'', self ''handler'', self ''cache_dir'', self ''verbose'') of
        (Some (PNamer n), Some (PHandler h), Some (PStr d), Some (PBool b)) \<Rightarrow>
          (case (self ''validator'', self ''cleaner'') of
             (Some PNone, Some PNone) \<Rightarrow>
               Some \<lparr>url_to_name = n, validator = None, handler = h, cache_dir_of = d,
                     verbose_of = b, cleaner = None, last_path = None\<rparr>
           | (Some PNone, Some (PCleaner c)) \<Rightarrow>
               Some \<lparr>url_to_name = n, validator = None, handler = h, cache_dir_of = d,
                     verbose_of = b, cleaner = Some c, last_path = None\<rparr>
           | (Some (PValidator v), Some PNone) \<Rightarrow>
               Some \<lparr>url_to_name = n, validator = Some v, handler = h, cache_dir_of = d,
                     verbose_of = b, cleaner = None, last_path = None\<rparr>
           | (Some (PValidator v), Some (PCleaner c)) \<Rightarrow>
               Some \<lparr>url_to_name = n, validator = Some v, handler = h, cache_dir_of = d,
                     verbose_of = b, cleaner = Some c, last_path = None\<rparr>
           | _ \<Rightarrow> None)
      | _ \<Rightarrow> None)"

definition run_cleaner :: "LRUCleanup option \<Rightarrow> world \<Rightarrow> (error + unit) \<times> LRUCleanup option \<times> world" where
  \<comment> \<open>\<^verbatim>\<open>if self.cleaner is not None: self.cleaner.cleanup()\<close>\<close>
  "run_cleaner c w =
     (case c of
        None \<Rightarrow> (Inr (), None, w)
      | Some c' \<Rightarrow>
          (case cleanup c' (emit Call_cleanup w) of (r, c'', w') \<Rightarrow> (r, Some c'', w')))"

definition py_repr :: "string \<Rightarrow> string" where
  \<comment> \<open>\<^verbatim>\<open>repr(data)\<close> of a byte string, without the escapes of unprintable bytes\<close>
  "py_repr data = ''b'' @ [CHR 0x27] @ data @ [CHR 0x27]"

definition reject :: "string \<Rightarrow> string \<Rightarrow> world \<Rightarrow> error \<times> world" where
  \<comment> \<open>the branch of \<^verbatim>\<open>get_file\<close> for a file the validator refuses: its type and its first
      200 bytes are read, it is removed, and \<^verbatim>\<open>ValueError\<close> is raised. An exception on the
      way is raised instead.\<close>
  "reject url dest w =
     (case get_filetype w dest of
        Inl e \<Rightarrow> (e, w)
      | Inr ftype \<Rightarrow>
          (case open_rb dest w of
             Inl e \<Rightarrow> (e, w)
           | Inr f \<Rightarrow>
               (let data = take 200 (stream_data f)
                in case os_remove dest w of
                     Inl e \<Rightarrow> (e, w)
                   | Inr w' \<Rightarrow>
                       (ValueError (dest @ '' ('' @ url @ '') is not a tar archive, but a ''
                          @ ftype @ '', contains '' @ py_repr data), w'))))"

definition get_file :: "FileCache \<Rightarrow> string \<Rightarrow> world \<Rightarrow> (error + string) \<times> FileCache \<times> world" where
  "get_file self url w =
     (case url_to_name self url of
        Inl e \<Rightarrow> (Inl e, self, w)
      | Inr cache_name \<Rightarrow>
          (let destdir = os_path_join (cache_dir_of self) (os_path_dirname cache_name)
           in case os_makedirs destdir w of
                Inl e \<Rightarrow> (Inl e, self, w)
              | Inr w1 \<Rightarrow>
                  (let dest = os_path_join (cache_dir_of self) cache_name
                   in if \<not> os_path_exists w1 dest then
                        (let w2 = (if verbose_of self
                                   then emit (Stderr (''# downloading '' @ url @ '' to '' @ dest)) w1
                                   else w1)
                         in case run_cleaner (cleaner self) w2 of
                              (Inl e, c, w3) \<Rightarrow> (Inl e, self\<lparr>cleaner := c\<rparr>, w3)
                            | (Inr _, c, w3) \<Rightarrow>
                                (case download url dest w3 of
                                   (Inl e, w4) \<Rightarrow> (Inl e, self\<lparr>cleaner := c\<rparr>, w4)
                                 | (Inr _, w4) \<Rightarrow>
                                     (case validator self of
                                        None \<Rightarrow> (Inr dest, self\<lparr>cleaner := c\<rparr>, w4)
                                      | Some valid \<Rightarrow>
                                          (case valid (emit (Call_validator dest) w4) dest of
                                             Inl e \<Rightarrow>
                                               (Inl e, self\<lparr>cleaner := c\<rparr>,
                                                emit (Call_validator dest) w4)
                                           | Inr True \<Rightarrow>
                                               (Inr dest, self\<lparr>cleaner := c\<rparr>,
                                                emit (Call_validator dest) w4)
                                           | Inr False \<Rightarrow>
                                               (case reject url dest (emit (Call_validator dest) w4) of
                                                  (e, w5) \<Rightarrow> (Inl e, self\<lparr>cleaner := c\<rparr>, w5))))))
                      else (Inr dest, self, w1))))"

definition open_file :: "FileCache \<Rightarrow> string \<Rightarrow> world \<Rightarrow> (error + stream) \<times> FileCache \<times> world" where
  "open_file self url w =
     (case urlparse url of
        Inl e \<Rightarrow> (Inl e, self, w)
      | Inr parsed \<Rightarrow>
          if scheme parsed \<in> set ['''', ''file''] then
            (open_rb (path parsed) w, self\<lparr>last_path := Some (path parsed)\<rparr>, w)
          else
            (case get_file self url w of
               (Inl e, self', w') \<Rightarrow> (Inl e, self', w')
             | (Inr p, self', w') \<Rightarrow> (open_rb p w', self'\<lparr>last_path := Some p\<rparr>, w')))"

definition call_open_file :: "FileCache \<Rightarrow> string list \<Rightarrow> world \<Rightarrow> (error + stream) \<times> FileCache \<times> world" where
  \<comment> \<open>A call \<^verbatim>\<open>self.open_file(*args)\<close>: the method takes one argument besides \<^verbatim>\<open>self\<close>,
      and Python raises \<^verbatim>\<open>TypeError\<close> for any other number, before the body runs.\<close>
  "call_open_file self args w =
     (case args of
        [url] \<Rightarrow> open_file self url w
      | _ \<Rightarrow> (Inl (TypeError ''open_file() takes 2 positional arguments but 3 were given''),
              self, w))"

subsection \<open>FileCache.__call__\<close>

datatype request = Url string | Dict "(string \<times> string) list"

definition url_of :: "request \<Rightarrow> error + string" where
  \<comment> \<open>\<^verbatim>\<open>if isinstance(url, dict): url = url["url"]\<close>\<close>
  "url_of r =
     (case r of
        Url u \<Rightarrow> Inr u
      | Dict d \<Rightarrow> (case map_of d ''url'' of None \<Rightarrow> Inl (KeyError ''url'') | Some u \<Rightarrow> Inr u))"

record opened =
  opened_url :: string
  opened_stream :: stream
  opened_local_path :: string

definition try_body :: "FileCache \<Rightarrow> string \<Rightarrow> world \<Rightarrow> (error + opened) \<times> FileCache \<times> world" where
  \<comment> \<open>The body of the \<^verbatim>\<open>try\<close> statement up to the \<^verbatim>\<open>yield\<close>:
      \<^verbatim>\<open>stream = self.open_file(self.get_file(url), "rb")\<close> evaluates the argument
      \<^verbatim>\<open>self.get_file(url)\<close> first and then calls \<^verbatim>\<open>open_file\<close> with two arguments; the
      record that is yielded reads \<^verbatim>\<open>self.last_path\<close>.\<close>
  "try_body self url w =
     (case get_file self url w of
        (Inl e, self1, w1) \<Rightarrow> (Inl e, self1, w1)
      | (Inr p, self1, w1) \<Rightarrow>
          (case call_open_file self1 [p, ''rb''] w1 of
             (Inl e, self2, w2) \<Rightarrow> (Inl e, self2, w2)
           | (Inr s, self2, w2) \<Rightarrow>
               (case last_path self2 of
                  None \<Rightarrow> (Inl (AttributeError ''last_path''), self2, w2)
                | Some lp \<Rightarrow>
                    (Inr \<lparr>opened_url = url, opened_stream = s, opened_local_path = lp\<rparr>,
                     self2, w2))))"

record run =
  yielded :: "opened list"
  raised :: "error option"
  final_self :: FileCache
  final_world :: world

fun retry_loop :: "nat \<Rightarrow> FileCache \<Rightarrow> string \<Rightarrow> world \<Rightarrow> bool \<times> run" where
  \<comment> \<open>\<^verbatim>\<open>for _ in range(n)\<close> around the \<^verbatim>\<open>try\<close> statement. After the \<^verbatim>\<open>yield\<close> the loop goes on
      to its next round; \<^verbatim>\<open>continue\<close> does so too; \<^verbatim>\<open>break\<close> leaves this loop; an exception
      of the handler leaves the generator. The flag tells whether the loop was left by
      \<^verbatim>\<open>break\<close>.\<close>
  "retry_loop 0 self url w =
     (False, \<lparr>yielded = [], raised = None, final_self = self, final_world = w\<rparr>)"
| "retry_loop (Suc n) self url w =
     (case try_body self url w of
        (Inr item, self1, w1) \<Rightarrow>
          (case retry_loop n self1 url w1 of
             (b, r) \<Rightarrow> (b, r\<lparr>yielded := item # yielded r\<rparr>))
      | (Inl e, self1, w1) \<Rightarrow>
          (case handler self1 e of
             Inl e' \<Rightarrow>
               (False, \<lparr>yielded = [], raised = Some e', final_self = self1,
                        final_world = emit (Call_handler e) w1\<rparr>)
           | Inr True \<Rightarrow> retry_loop n self1 url (emit (Call_handler e) w1)
           | Inr False \<Rightarrow>
               (True, \<lparr>yielded = [], raised = None, final_self = self1,
                       final_world = emit (Call_handler e) w1\<rparr>)))"

fun FileCache_call :: "FileCache \<Rightarrow> request list \<Rightarrow> world \<Rightarrow> run" where
  \<comment> \<open>\<^verbatim>\<open>FileCache.__call__\<close>, run by a consumer that takes every item: the outer loop goes
      on to the next URL however the inner loop ended, unless an exception was raised.\<close>
  "FileCache_call self [] w =
     \<lparr>yielded = [], raised = None, final_self = self, final_world = w\<rparr>"
| "FileCache_call self (r # rs) w =
     (case url_of r of
        Inl e \<Rightarrow> \<lparr>yielded = [], raised = Some e, final_self = self, final_world = w\<rparr>
      | Inr url \<Rightarrow>
          (case retry_loop 10 self url w of
             (b, r1) \<Rightarrow>
               (case raised r1 of
                  Some e \<Rightarrow> r1
                | None \<Rightarrow>
                    (let r2 = FileCache_call (final_self r1) rs (final_world r1)
                     in r2\<lparr>yielded := yielded r1 @ yielded r2\<rparr>))))"

subsection \<open>Observations on a download\<close>

fun fetched :: "(error + string) list \<Rightarrow> string" where
  \<comment> \<open>the bytes the reads deliver up to the end of the stream (the first empty chunk)\<close>
  "fetched [] = []"
| "fetched (Inl e # reads) = []"
| "fetched (Inr data # reads) = (if data = [] then [] else data @ fetched reads)"

fun read_to_end :: "(error + string) list \<Rightarrow> bool" where
  \<comment> \<open>no read raises before the end of the stream\<close>
  "read_to_end [] = True"
| "read_to_end (Inl e # reads) = False"
| "read_to_end (Inr data # reads) = (data = [] \<or> read_to_end reads)"

fun downloads :: "event list \<Rightarrow> (string \<times> string) list" where
  \<comment> \<open>the calls of \<^verbatim>\<open>download\<close>, with their arguments\<close>
  "downloads [] = []"
| "downloads (Call_download u d # es) = (u, d) # downloads es"
| "downloads (_ # es) = downloads es"

fun validations :: "event list \<Rightarrow> string list" where
  \<comment> \<open>the calls of the validator, with their argument\<close>
  "validations [] = []"
| "validations (Call_validator d # es) = d # validations es"
| "validations (_ # es) = validations es"

fun sweeps :: "event list \<Rightarrow> nat" where
  \<comment> \<open>the number of calls of \<^verbatim>\<open>cleanup\<close>\<close>
  "sweeps [] = 0"
| "sweeps (Call_cleanup # es) = Suc (sweeps es)"
| "sweeps (_ # es) = sweeps es"

fun handled :: "event list \<Rightarrow> error list" where
  \<comment> \<open>the exceptions passed to the handler, in order\<close>
  "handled [] = []"
| "handled (Call_handler e # es) = e # handled es"
| "handled (_ # es) = handled es"

subsection \<open>Example inputs\<close>

definition quiet_world :: world where
  \<comment> \<open>an environment with no file, the cache directory \<^verbatim>\<open>c\<close> and a clock at 1000\<close>
  "quiet_world =
     \<lparr>files = [], dirs = [''c''], clock = (\<lambda>n. 1000 + int n), ticks = 0,
      remote = (\<lambda>u. Inl (TransportError u)), disk_free = 1000, file_cmd = None,
      pid = 7, log = []\<rparr>"

definition full_world :: world where
  \<comment> \<open>three files of 60, 60 and 30 bytes in the cache directory, one file elsewhere\<close>
  "full_world =
     quiet_world\<lparr>files :=
       [(''c/a'', \<lparr>content = replicate 60 (CHR ''a''), ctime = 5\<rparr>),
        (''c/b'', \<lparr>content = replicate 60 (CHR ''b''), ctime = 3\<rparr>),
        (''c/sub/d'', \<lparr>content = replicate 30 (CHR ''d''), ctime = 9\<rparr>),
        (''other/z'', \<lparr>content = ''zz'', ctime = 1\<rparr>)],
       dirs := [''c'', ''c/sub'', ''other'']\<rparr>"

definition sweeper :: LRUCleanup where
  \<comment> \<open>\<^verbatim>\<open>LRUCleanup("c", 100, verbose=True)\<close>, with the default key and interval\<close>
  "sweeper = LRUCleanup_init (Some ''c'') 100 os_path_getctime True (Some 30)"

definition negative_sweeper :: LRUCleanup where
  \<comment> \<open>\<^verbatim>\<open>LRUCleanup("c", -1)\<close>\<close>
  "negative_sweeper = LRUCleanup_init (Some ''c'') (- 1) os_path_getctime False (Some 30)"

definition roomy_sweeper :: LRUCleanup where
  \<comment> \<open>\<^verbatim>\<open>LRUCleanup("c", 1000)\<close>: a budget above the 150 bytes of the directory\<close>
  "roomy_sweeper = LRUCleanup_init (Some ''c'') 1000 os_path_getctime False (Some 30)"

definition net_world :: world where
  \<comment> \<open>the transport delivers \<^verbatim>\<open>http://host/x\<close> in two chunks and \<^verbatim>\<open>http://host/y\<close> in two small
      ones, fails in the middle of \<^verbatim>\<open>http://host/broken\<close> and knows no other URL; the
      \<^verbatim>\<open>file\<close> utility takes everything that starts with \<^verbatim>\<open>tar\<close> for an archive\<close>
  "net_world =
     quiet_world\<lparr>
       remote := (\<lambda>u. if u = ''http://host/x'' then Inr [Inr ''tar-'', Inr ''data'']
                     else if u = ''http://host/y'' then Inr [Inr ''tar'', Inr ''2'']
                     else if u = ''http://host/broken''
                     then Inr [Inr ''tar-'', Inl (TransportError ''connection reset'')]
                     else Inl (TransportError u)),
       file_cmd := Some (\<lambda>bytes. if startswith bytes ''tar'' then ''POSIX tar archive''
                                  else ''data'')\<rparr>"

definition retrying :: "error \<Rightarrow> error + bool" where
  \<comment> \<open>a handler that always answers \<^verbatim>\<open>True\<close>\<close>
  "retrying e = Inr True"

definition stopping :: "error \<Rightarrow> error + bool" where
  \<comment> \<open>a handler that always answers \<^verbatim>\<open>False\<close>\<close>
  "stopping e = Inr False"

definition reraise_exception :: "error \<Rightarrow> error + bool" where
  \<comment> \<open>the default handler of the source (\<^verbatim>\<open>handlers.reraise_exception\<close>) raises what it is
      given\<close>
  "reraise_exception e = Inl e"

definition default_namer :: "string \<Rightarrow> error + string" where
  \<comment> \<open>\<^verbatim>\<open>url_to_cache_name\<close> called with the URL alone\<close>
  "default_namer u = url_to_cache_name u 0"

definition make_cache :: "(error \<Rightarrow> error + bool) \<Rightarrow> int \<Rightarrow> error + pyobject" where
  \<comment> \<open>\<^verbatim>\<open>FileCache(cache_dir="c", handler=h, cache_size=n)\<close>\<close>
  "make_cache h n =
     FileCache_init None default_namer (Some ''c'') False (Some check_tar_format) h n (Some 30)"

definition cache_with :: "(error \<Rightarrow> error + bool) \<Rightarrow> FileCache" where
  \<comment> \<open>the instance \<^verbatim>\<open>FileCache(cache_dir="c", handler=h)\<close> stands for\<close>
  "cache_with h =
     \<lparr>url_to_name = default_namer, validator = Some check_tar_format, handler = h,
      cache_dir_of = ''c'', verbose_of = False, cleaner = None, last_path = None\<rparr>"

section \<open>The eviction sweep\<close>


lemma map_of_filter_notin:
  "q \<notin> set ps \<Longrightarrow> map_of (filter (\<lambda>e. fst e \<notin> set ps) fs) q = map_of fs q"
  by (induction fs) auto

lemma map_of_filter_neq:
  "q \<noteq> p \<Longrightarrow> map_of (filter (\<lambda>e. fst e \<noteq> p) fs) q = map_of fs q"
  by (induction fs) auto

lemma sum_sizes_files:
  "list_all (is_file w) ps \<Longrightarrow> sum_sizes w ps t = Inr (t + sum_list (map (size_of w) ps))"
  by (induction ps arbitrary: t) (auto simp: os_path_getsize_def is_file_def size_of_def split: option.splits)

lemma walk_sizes:
  assumes "distinct (map fst (files w))"
  shows "sum_list (map (size_of w) (os_walk_files w d)) = total_size_under w d"
proof -
  have sz: "\<And>e. e \<in> set (files w) \<Longrightarrow> size_of w (fst e) = int (length (content (snd e)))"
    using assms by (auto simp: size_of_def split: option.splits dest: eq_key_imp_eq_value)
  have "map (size_of w \<circ> fst) (filter (\<lambda>e. is_under d (fst e)) (files w))
        = map (\<lambda>e. int (length (content (snd e)))) (filter (\<lambda>e. is_under d (fst e)) (files w))"
    by (rule map_cong) (use sz in auto)
  moreover have "os_walk_files w d = map fst (filter (\<lambda>e. is_under d (fst e)) (files w))"
    by (simp add: os_walk_files_def filter_map comp_def)
  ultimately have "map (size_of w) (os_walk_files w d)
        = map (\<lambda>e. int (length (content (snd e)))) (filter (\<lambda>e. is_under d (fst e)) (files w))"
    by simp
  then show ?thesis unfolding total_size_under_def by (rule arg_cong)
qed

lemma walk_is_file: "list_all (is_file w) (os_walk_files w d)"
  by (auto simp: list_all_iff os_walk_files_def is_file_def weak_map_of_SomeI)

lemma walk_distinct: "distinct (map fst (files w)) \<Longrightarrow> distinct (os_walk_files w d)"
  by (simp add: os_walk_files_def)

lemma keys_of_ok:
  "list_all (\<lambda>p. case k p of Inr _ \<Rightarrow> True | Inl _ \<Rightarrow> False) ps \<Longrightarrow>
   keys_of k ps = Inr (map (\<lambda>p. (case k p of Inr x \<Rightarrow> x | Inl _ \<Rightarrow> 0, p)) ps)"
  by (induction ps) (auto split: sum.splits)

lemma sort_key_decorated_aux:
  "sort_key fst (map (\<lambda>p. (f p, p)) xs) = map (\<lambda>p. (f p, p)) (sort_key f xs)"
proof (induction xs)
  case Nil show ?case by simp
next
  case (Cons x xs)
  have "insort_key fst (f x, x) (map (\<lambda>p. (f p, p)) ys) = map (\<lambda>p. (f p, p)) (insort_key f x ys)" for ys
    by (induction ys) auto
  with Cons show ?case by simp
qed

lemma sort_key_decorated:
  "map snd (sort_key fst (map (\<lambda>p. (f p, p)) xs)) = sort_key f xs"
  by (simp add: sort_key_decorated_aux comp_def)

lemma sort_reverse_ok:
  assumes "list_all (has_key self w) ps"
  shows "sort_reverse (keyfn self (map_of (files w))) ps
         = Inr (rev (sort_key (key_of self w) (rev ps)))"
proof -
  have "keys_of (keyfn self (map_of (files w))) ps = Inr (map (\<lambda>p. (key_of self w p, p)) ps)"
    using keys_of_ok[of "keyfn self (map_of (files w))" ps] assms
    by (simp add: has_key_def[abs_def] key_of_def[abs_def])
  moreover have "map snd (rev (sort_key fst (rev (map (\<lambda>p. (key_of self w p, p)) ps))))
      = rev (map snd (sort_key fst (map (\<lambda>p. (key_of self w p, p)) (rev ps))))"
    by (simp only: rev_map)
  ultimately show ?thesis
    by (simp only: sort_reverse_def sort_key_decorated sum.case)
qed

lemma delete_loop_run:
  assumes "distinct stack" "list_all (is_file w) stack"
  shows "\<exists>n\<le>length stack.
           delete_loop self stack t w = (Inr (), after_removal self (take n stack) w)
         \<and> (\<forall>k<n. cache_size self < t - sum_list (map (size_of w) (take k stack)))
         \<and> (n = length stack \<or> t - sum_list (map (size_of w) (take n stack)) \<le> cache_size self)"
  using assms
proof (induction stack arbitrary: t w)
  case Nil
  show ?case by (simp add: after_removal_def deletion_events_def)
next
  case (Cons p rest)
  show ?case
  proof (cases "t > cache_size self")
    case False
    then have "delete_loop self (p # rest) t w = (Inr (), after_removal self (take 0 (p # rest)) w)"
      by (simp add: after_removal_def deletion_events_def)
    moreover have "t - sum_list (map (size_of w) (take 0 (p # rest))) \<le> cache_size self"
      using False by simp
    ultimately show ?thesis by (intro exI[of _ 0]) simp
  next
    case True
    from Cons.prems have pf: "is_file w p" and pn: "p \<notin> set rest" and dr: "distinct rest"
      and rf: "list_all (is_file w) rest" by auto
    define w1 where "w1 = (if verbose self then emit (Stderr (''# deleting '' @ p)) w else w)"
    define w2 where "w2 = emit (Call_remove p) (w1\<lparr>files := filter (\<lambda>e. fst e \<noteq> p) (files w1)\<rparr>)"
    have f1: "files w1 = files w" by (simp add: w1_def emit_def)
    have f2: "files w2 = filter (\<lambda>e. fst e \<noteq> p) (files w)" by (simp add: w2_def emit_def f1)
    have sz: "os_path_getsize w p = Inr (nat (size_of w p))"
      using pf by (auto simp: os_path_getsize_def is_file_def size_of_def split: option.splits)
    have szn: "int (nat (size_of w p)) = size_of w p"
      by (auto simp: size_of_def split: option.splits)
    have rm: "os_remove p w1 = Inr w2"
      using pf by (simp add: os_remove_def is_file_def f1 w2_def)
    have step: "delete_loop self (p # rest) t w = delete_loop self rest (t - size_of w p) w2"
      using True sz rm szn by (simp add: w1_def[symmetric] Let_def)
    have same: "\<And>q. q \<noteq> p \<Longrightarrow> map_of (files w2) q = map_of (files w) q"
      by (simp add: f2 map_of_filter_neq)
    have rf2: "list_all (is_file w2) rest"
    proof -
      have "is_file w2 q" if "q \<in> set rest" for q
      proof -
        from that pn have "q \<noteq> p" by auto
        with that rf show ?thesis by (simp add: list_all_iff is_file_def same)
      qed
      then show ?thesis by (simp add: list_all_iff)
    qed
    have sz2: "\<And>k. map (size_of w2) (take k rest) = map (size_of w) (take k rest)"
    proof -
      have "size_of w2 q = size_of w q" if "q \<in> set rest" for q
      proof -
        from that pn have "q \<noteq> p" by auto
        then show ?thesis by (simp add: size_of_def same)
      qed
      then show "map (size_of w2) (take k rest) = map (size_of w) (take k rest)" for k
        by (auto dest: in_set_takeD)
    qed
    from Cons.IH[OF dr rf2, of "t - size_of w p"] obtain n where n: "n \<le> length rest"
      "delete_loop self rest (t - size_of w p) w2 = (Inr (), after_removal self (take n rest) w2)"
      "\<forall>k<n. cache_size self < t - size_of w p - sum_list (map (size_of w2) (take k rest))"
      "n = length rest \<or> t - size_of w p - sum_list (map (size_of w2) (take n rest)) \<le> cache_size self"
      by blast
    have aw: "after_removal self (take n rest) w2 = after_removal self (take (Suc n) (p # rest)) w"
      by (auto simp: after_removal_def w2_def w1_def emit_def deletion_events_def intro!: filter_cong)
    have "\<forall>k<Suc n. cache_size self < t - sum_list (map (size_of w) (take k (p # rest)))"
    proof (intro allI impI)
      fix k assume "k < Suc n"
      show "cache_size self < t - sum_list (map (size_of w) (take k (p # rest)))"
      proof (cases k)
        case 0 then show ?thesis using True by simp
      next
        case (Suc j)
        with \<open>k < Suc n\<close> have "j < n" by simp
        with n(3) have "cache_size self < t - size_of w p - sum_list (map (size_of w2) (take j rest))"
          by blast
        then show ?thesis by (simp add: Suc sz2 algebra_simps)
      qed
    qed
    moreover have "Suc n = length (p # rest) \<or>
        t - sum_list (map (size_of w) (take (Suc n) (p # rest))) \<le> cache_size self"
      using n(4) sz2 by auto
    ultimately show ?thesis
      using step n(1,2) aw by (intro exI[of _ "Suc n"]) simp
  qed
qed


lemma after_guard_simps [simp]:
  "files (after_guard self w) = files w" "dirs (after_guard self w) = dirs w"
  "log (after_guard self w) = log w"
  by (auto simp: after_guard_def time_time_def split: option.splits)

lemma after_guard_obs [simp]:
  "os_walk_files (after_guard self w) d = os_walk_files w d"
  "size_of (after_guard self w) = size_of w"
  "key_of self' (after_guard self w) = key_of self' w"
  "has_key self' (after_guard self w) = has_key self' w"
  "is_file (after_guard self w) = is_file w"
  "total_size_under (after_guard self w) d = total_size_under w d"
  by (auto simp: os_walk_files_def size_of_def key_of_def has_key_def is_file_def total_size_under_def fun_eq_iff)

lemma pop_order_props:
  "set (pop_order self w d) = set (os_walk_files w d)"
  "distinct (map fst (files w)) \<Longrightarrow> distinct (pop_order self w d)"
  "sorted (map (key_of self w) (pop_order self w d))"
  by (simp_all add: pop_order_def os_walk_files_def)

lemma cleanup_guard:
  assumes "cache_dir self = Some d" "os_path_exists w d" "guard_passes self w"
  shows "cleanup self w =
     (case scan_and_delete self d (after_guard self w) of
        (Inr Returned, w2) \<Rightarrow> (Inr (), self, w2)
      | (Inr Completed, w2) \<Rightarrow>
          (let (now, w3) = time_time w2 in (Inr (), self\<lparr>last_run := now\<rparr>, w3))
      | (Inl e, w2) \<Rightarrow>
          if is_OSError e
          then (let (now, w3) = time_time w2 in (Inr (), self\<lparr>last_run := now\<rparr>, w3))
          else (Inl e, self, w2))"
  using assms
  by (auto simp: cleanup_def guard_passes_def after_guard_def time_time_def split: option.splits)

lemma scan_and_delete_run:
  assumes dist: "distinct (map fst (files w))" and keys: "list_all (has_key self w) (os_walk_files w d)"
  shows "if total_size_under w d \<le> cache_size self
         then scan_and_delete self d w = (Inr Returned, w)
         else (\<exists>n\<le>length (pop_order self w d).
                 scan_and_delete self d w
                   = (Inr Completed, after_removal self (take n (pop_order self w d)) w)
               \<and> (\<forall>k<n. cache_size self
                      < total_size_under w d - sum_list (map (size_of w) (take k (pop_order self w d))))
               \<and> (n = length (pop_order self w d)
                  \<or> total_size_under w d - sum_list (map (size_of w) (take n (pop_order self w d)))
                      \<le> cache_size self))"
proof -
  have tot: "sum_sizes w (os_walk_files w d) 0 = Inr (total_size_under w d)"
    using sum_sizes_files[OF walk_is_file, of w d 0] walk_sizes[OF dist, of d] by simp
  show ?thesis
  proof (cases "total_size_under w d \<le> cache_size self")
    case True
    then show ?thesis by (simp add: scan_and_delete_def tot)
  next
    case False
    have srt: "sort_reverse (keyfn self (map_of (files w))) (os_walk_files w d)
                 = Inr (rev (pop_order self w d))"
      using sort_reverse_ok[OF keys] by (simp add: pop_order_def)
    have "list_all (is_file w) (pop_order self w d)"
      using walk_is_file[of w d] by (simp add: list_all_iff pop_order_props)
    from delete_loop_run[OF pop_order_props(2)[OF dist] this, of self "total_size_under w d"]
    obtain n where n: "n \<le> length (pop_order self w d)"
      "delete_loop self (pop_order self w d) (total_size_under w d) w
         = (Inr (), after_removal self (take n (pop_order self w d)) w)"
      "\<forall>k<n. cache_size self
          < total_size_under w d - sum_list (map (size_of w) (take k (pop_order self w d)))"
      "n = length (pop_order self w d)
        \<or> total_size_under w d - sum_list (map (size_of w) (take n (pop_order self w d)))
            \<le> cache_size self"
      by blast
    have "scan_and_delete self d w
            = (Inr Completed, after_removal self (take n (pop_order self w d)) w)"
      using False by (simp add: scan_and_delete_def tot srt n(2))
    with n(1,3,4) False show ?thesis by auto
  qed
qed

lemma total_after_removal:
  assumes dist: "distinct (map fst (files w))" and sub: "set ps \<subseteq> set (os_walk_files w d)"
    and dps: "distinct ps"
  shows "total_size_under (after_removal self ps w) d
           = total_size_under w d - sum_list (map (size_of w) ps)"
proof -
  let ?w' = "after_removal self ps w"
  have f': "files ?w' = filter (\<lambda>e. fst e \<notin> set ps) (files w)"
    by (simp add: after_removal_def)
  have dist': "distinct (map fst (files ?w'))"
    using dist by (simp add: f' distinct_map_filter)
  have walk': "os_walk_files ?w' d = filter (\<lambda>q. q \<notin> set ps) (os_walk_files w d)"
    by (simp add: os_walk_files_def f' filter_map comp_def) (metis (mono_tags, lifting) filter_cong)
  have same: "size_of ?w' q = size_of w q" if "q \<notin> set ps" for q
    using that by (simp add: size_of_def f' map_of_filter_notin)
  have "total_size_under ?w' d = sum_list (map (size_of ?w') (os_walk_files ?w' d))"
    using walk_sizes[OF dist', of d] by simp
  also have "\<dots> = sum_list (map (size_of w) (filter (\<lambda>q. q \<notin> set ps) (os_walk_files w d)))"
    unfolding walk' by (rule arg_cong[where f=sum_list], rule map_cong) (auto simp: same)
  also have "\<dots> = sum (size_of w) (set (os_walk_files w d) - set ps)"
    using walk_distinct[OF dist, of d]
    by (subst sum_list_distinct_conv_sum_set) (auto intro: sum.cong)
  finally have a: "total_size_under ?w' d = sum (size_of w) (set (os_walk_files w d) - set ps)" .
  have b: "total_size_under w d = sum (size_of w) (set (os_walk_files w d))"
    using walk_sizes[OF dist, of d] walk_distinct[OF dist, of d]
    by (simp add: sum_list_distinct_conv_sum_set)
  have c: "sum_list (map (size_of w) ps) = sum (size_of w) (set ps)"
    using dps by (simp add: sum_list_distinct_conv_sum_set)
  have "sum (size_of w) (set (os_walk_files w d))
          = sum (size_of w) (set (os_walk_files w d) - set ps) + sum (size_of w) (set ps)"
    using sub by (intro sum.subset_diff) auto
  with a b c show ?thesis by simp
qed


lemma sorted_le_last: "sorted xs \<Longrightarrow> (x::int) \<in> set xs \<Longrightarrow> x \<le> last xs"
  by (induction xs) auto

lemma removals_deletion_events [simp]: "removals (deletion_events self ps) = ps"
  by (induction ps) (auto simp: deletion_events_def)

lemma time_time_simps [simp]:
  "files (snd (time_time w)) = files w" "log (snd (time_time w)) = log w"
  "fst (time_time w) = clock w (ticks w)"
  by (simp_all add: time_time_def)

lemma total_size_under_cong: "files w' = files w \<Longrightarrow> total_size_under w' d = total_size_under w d"
  by (simp add: total_size_under_def)

lemma is_file_cong: "files w' = files w \<Longrightarrow> is_file w' p = is_file w p"
  by (simp add: is_file_def)

lemma cleanup_run:
  assumes cd: "cache_dir self = Some d" and ex: "os_path_exists w d" and g: "guard_passes self w"
    and dist: "distinct (map fst (files w))" and keys: "list_all (has_key self w) (os_walk_files w d)"
  shows "if total_size_under w d \<le> cache_size self
         then cleanup self w = (Inr (), self, after_guard self w)
         else (\<exists>n\<le>length (pop_order self w d). \<exists>w'.
                 cleanup self w = (Inr (), self\<lparr>last_run := clock w' (ticks w')\<rparr>, snd (time_time w'))
               \<and> w' = after_removal self (take n (pop_order self w d)) (after_guard self w)
               \<and> (\<forall>k<n. cache_size self
                      < total_size_under w d - sum_list (map (size_of w) (take k (pop_order self w d))))
               \<and> (n = length (pop_order self w d)
                  \<or> total_size_under w d - sum_list (map (size_of w) (take n (pop_order self w d)))
                      \<le> cache_size self))"
proof -
  let ?w1 = "after_guard self w"
  have po: "pop_order self ?w1 d = pop_order self w d" by (simp add: pop_order_def)
  have dist1: "distinct (map fst (files ?w1))" using dist by simp
  have keys1: "list_all (has_key self ?w1) (os_walk_files ?w1 d)" using keys by simp
  note run = scan_and_delete_run[OF dist1 keys1, unfolded po after_guard_obs]
  show ?thesis
  proof (cases "total_size_under w d \<le> cache_size self")
    case True
    with run have "scan_and_delete self d ?w1 = (Inr Returned, ?w1)" by simp
    with True show ?thesis by (simp add: cleanup_guard[OF cd ex g])
  next
    case False
    with run obtain n where n: "n \<le> length (pop_order self w d)"
      "scan_and_delete self d ?w1 = (Inr Completed, after_removal self (take n (pop_order self w d)) ?w1)"
      "\<forall>k<n. cache_size self
          < total_size_under w d - sum_list (map (size_of w) (take k (pop_order self w d)))"
      "n = length (pop_order self w d)
        \<or> total_size_under w d - sum_list (map (size_of w) (take n (pop_order self w d)))
            \<le> cache_size self"
      by auto
    have "cleanup self w = (Inr (), self\<lparr>last_run := clock (after_removal self (take n (pop_order self w d)) ?w1) (ticks (after_removal self (take n (pop_order self w d)) ?w1))\<rparr>,
        snd (time_time (after_removal self (take n (pop_order self w d)) ?w1)))"
      by (simp add: cleanup_guard[OF cd ex g] n(2) time_time_def)
    with n(1,3,4) False show ?thesis by auto
  qed
qed




text \<open>
  Claim C5. A run of \<^verbatim>\<open>LRUCleanup.cleanup\<close> in which the scan executes, over files with
  pairwise distinct recency keys: the files are deleted in strictly ascending order of
  their keys; they are files of the directory, and each of them is older than every file
  that is kept; every deletion happens while the running total exceeds \<^verbatim>\<open>cache_size\<close>, and
  the deletions stop once the running total is at most \<^verbatim>\<open>cache_size\<close> or no file is left;
  a file whose key is newer than the key of the last deleted file is not deleted and is
  still there after the run; and nothing but the deleted files leaves the file system.
\<close>

theorem cleanup_evicts_oldest_first:
  assumes cd: "cache_dir self = Some d" and ex: "os_path_exists w d" and g: "guard_passes self w"
    and dist: "distinct (map fst (files w))" and keys: "list_all (has_key self w) (os_walk_files w d)"
    and dkeys: "distinct (map (key_of self w) (os_walk_files w d))"
    and run: "cleanup self w = (r, self', w')"
    and del: "deleted = removals (new_events w w')"
  shows "sorted_wrt (<) (map (key_of self w) deleted)
       \<and> set deleted \<subseteq> set (os_walk_files w d)
       \<and> (\<forall>p\<in>set deleted. \<forall>q\<in>set (os_walk_files w d) - set deleted. key_of self w p < key_of self w q)
       \<and> (\<forall>k<length deleted.
             cache_size self < total_size_under w d - sum_list (map (size_of w) (take k deleted)))
       \<and> (total_size_under w d - sum_list (map (size_of w) deleted) \<le> cache_size self
            \<or> set deleted = set (os_walk_files w d))
       \<and> (\<forall>q\<in>set (os_walk_files w d).
             deleted \<noteq> [] \<and> key_of self w (last deleted) < key_of self w q
               \<longrightarrow> q \<notin> set deleted \<and> is_file w' q)
       \<and> files w' = filter (\<lambda>e. fst e \<notin> set deleted) (files w)"
proof (cases "total_size_under w d \<le> cache_size self")
  case True
  with cleanup_run[OF cd ex g dist keys] run have "w' = after_guard self w" by auto
  then have "deleted = []" by (simp add: del new_events_def)
  with True \<open>w' = after_guard self w\<close> show ?thesis by simp
next
  case False
  let ?w1 = "after_guard self w"
  let ?st = "pop_order self w d"
  let ?key = "key_of self w"
  from False cleanup_run[OF cd ex g dist keys] run obtain n where n: "n \<le> length ?st"
    "w' = snd (time_time (after_removal self (take n ?st) ?w1))"
    "\<forall>k<n. cache_size self < total_size_under w d - sum_list (map (size_of w) (take k ?st))"
    "n = length ?st \<or> total_size_under w d - sum_list (map (size_of w) (take n ?st)) \<le> cache_size self"
    by auto
  have d: "deleted = take n ?st"
    by (simp add: del new_events_def n(2) after_removal_def)
  have fw: "files w' = filter (\<lambda>e. fst e \<notin> set deleted) (files w)"
    by (simp add: n(2) after_removal_def d)
  have "distinct (map ?key ?st)"
  proof -
    have "inj_on ?key (set (os_walk_files w d))" using dkeys by (simp add: distinct_map)
    then show ?thesis using pop_order_props(2)[OF dist] by (simp add: distinct_map pop_order_props)
  qed
  with pop_order_props(3)[of self w d] have strict: "sorted_wrt (<) (map ?key ?st)"
    by (simp add: strict_sorted_iff)
  have split: "?st = take n ?st @ drop n ?st" by simp
  from strict have s1: "sorted_wrt (<) (map ?key deleted)"
    unfolding d by (simp add: sorted_wrt_take flip: take_map)
  have s2: "\<forall>p\<in>set deleted. \<forall>q\<in>set (drop n ?st). ?key p < ?key q"
  proof -
    have "sorted_wrt (<) (map ?key (take n ?st) @ map ?key (drop n ?st))"
      using strict by (simp flip: map_append)
    then show ?thesis unfolding d sorted_wrt_append by auto
  qed
  have rest: "set (os_walk_files w d) - set deleted \<subseteq> set (drop n ?st)"
  proof -
    have "set ?st = set (take n ?st) \<union> set (drop n ?st)" by (metis set_append split)
    then show ?thesis unfolding d by (auto simp: pop_order_props)
  qed
  have sub: "set deleted \<subseteq> set (os_walk_files w d)"
    unfolding d using set_take_subset[of n ?st] by (simp add: pop_order_props)
  have old: "\<forall>p\<in>set deleted. \<forall>q\<in>set (os_walk_files w d) - set deleted. ?key p < ?key q"
    using s2 rest by blast
  have len: "length deleted = n" using n(1) by (simp add: d)
  have budget: "\<forall>k<length deleted.
      cache_size self < total_size_under w d - sum_list (map (size_of w) (take k deleted))"
  proof (intro allI impI)
    fix k assume "k < length deleted"
    then have "k < n" using len by simp
    moreover from this have "take k deleted = take k ?st" by (simp add: d min_def)
    ultimately show "cache_size self < total_size_under w d - sum_list (map (size_of w) (take k deleted))"
      using n(3) by simp
  qed
  have stop: "total_size_under w d - sum_list (map (size_of w) deleted) \<le> cache_size self
            \<or> set deleted = set (os_walk_files w d)"
    using n(4) by (auto simp: d pop_order_props)
  have newer: "\<forall>q\<in>set (os_walk_files w d).
             deleted \<noteq> [] \<and> ?key (last deleted) < ?key q \<longrightarrow> q \<notin> set deleted \<and> is_file w' q"
  proof (intro ballI impI)
    fix q assume q: "q \<in> set (os_walk_files w d)"
      and h: "deleted \<noteq> [] \<and> ?key (last deleted) < ?key q"
    have nd: "q \<notin> set deleted"
    proof
      assume qd: "q \<in> set deleted"
      from s1 have "sorted (map ?key deleted)" by (simp add: strict_sorted_iff)
      moreover from qd have "?key q \<in> set (map ?key deleted)" by simp
      ultimately have "?key q \<le> last (map ?key deleted)"
        by (rule sorted_le_last)
      with h show False by (simp add: last_map)
    qed
    have "is_file w q" using walk_is_file[of w d] q by (simp add: list_all_iff)
    then have "is_file w' q" using nd by (simp add: is_file_def fw map_of_filter_notin)
    with nd show "q \<notin> set deleted \<and> is_file w' q" by simp
  qed
  from s1 sub old budget stop newer fw show ?thesis by blast
qed

theorem cleanup_evicts_oldest_first_witness:
  "cache_dir sweeper = Some ''c''
   \<and> os_path_exists full_world ''c''
   \<and> guard_passes sweeper full_world
   \<and> distinct (map fst (files full_world))
   \<and> list_all (has_key sweeper full_world) (os_walk_files full_world ''c'')
   \<and> distinct (map (key_of sweeper full_world) (os_walk_files full_world ''c''))
   \<and> removals (new_events full_world (snd (snd (cleanup sweeper full_world)))) = [''c/b'']
   \<and> sorted_wrt (<) (map (key_of sweeper full_world)
         (removals (new_events full_world (snd (snd (cleanup sweeper full_world))))))
   \<and> key_of sweeper full_world ''c/b'' < key_of sweeper full_world ''c/a''
   \<and> is_file (snd (snd (cleanup sweeper full_world))) ''c/sub/d''
   \<and> files (snd (snd (cleanup sweeper full_world)))
       = filter (\<lambda>e. fst e \<notin> set (removals (new_events full_world (snd (snd (cleanup sweeper full_world))))))
           (files full_world)"
proof -
  let ?w' = "snd (snd (cleanup sweeper full_world))"
  let ?deleted = "removals (new_events full_world ?w')"
  have h1: "cache_dir sweeper = Some ''c''" by code_simp
  have h2: "os_path_exists full_world ''c''" by code_simp
  have h3: "guard_passes sweeper full_world" by code_simp
  have h4: "distinct (map fst (files full_world))" by code_simp
  have h5: "list_all (has_key sweeper full_world) (os_walk_files full_world ''c'')" by code_simp
  have h6: "distinct (map (key_of sweeper full_world) (os_walk_files full_world ''c''))" by code_simp
  have run: "cleanup sweeper full_world
      = (fst (cleanup sweeper full_world), fst (snd (cleanup sweeper full_world)), ?w')"
    by simp
  have dv: "?deleted = [''c/b'']" by code_simp
  have wv: "os_walk_files full_world ''c'' = [''c/a'', ''c/b'', ''c/sub/d'']" by code_simp
  have newer: "key_of sweeper full_world (last ?deleted) < key_of sweeper full_world ''c/sub/d''"
    by code_simp
  note main = cleanup_evicts_oldest_first[OF h1 h2 h3 h4 h5 h6 run refl]
  from main have a: "sorted_wrt (<) (map (key_of sweeper full_world) ?deleted)" by blast
  from main have "\<forall>p\<in>set ?deleted. \<forall>q\<in>set (os_walk_files full_world ''c'') - set ?deleted.
      key_of sweeper full_world p < key_of sweeper full_world q" by blast
  moreover have "''c/b'' \<in> set ?deleted" by (simp add: dv)
  moreover have "''c/a'' \<in> set (os_walk_files full_world ''c'') - set ?deleted" by (simp add: dv wv)
  ultimately have b: "key_of sweeper full_world ''c/b'' < key_of sweeper full_world ''c/a''" by blast
  from main have "\<forall>q\<in>set (os_walk_files full_world ''c'').
      ?deleted \<noteq> [] \<and> key_of sweeper full_world (last ?deleted) < key_of sweeper full_world q
        \<longrightarrow> q \<notin> set ?deleted \<and> is_file ?w' q" by blast
  moreover have "''c/sub/d'' \<in> set (os_walk_files full_world ''c'')" by (simp add: wv)
  moreover have "?deleted \<noteq> []" by (simp add: dv)
  ultimately have c: "is_file ?w' ''c/sub/d''" using newer by blast
  from main have d: "files ?w' = filter (\<lambda>e. fst e \<notin> set ?deleted) (files full_world)" by blast
  from h1 h2 h3 h4 h5 h6 dv a b c d show ?thesis by blast
qed

text \<open>
  Claim C6, at a failing input. The cache directory exists, the interval guard passes
  (the clock reads 1000, the last run was at 0, the interval is 30) and the scan runs:
  it finds 150 bytes under a budget of 1000 and leaves by the \<^verbatim>\<open>return\<close> inside the
  \<^verbatim>\<open>try\<close> statement. The call returns normally, it has read the clock once (in the guard),
  and \<^verbatim>\<open>last_run\<close> still has the value 0 it had before the call.
\<close>

theorem cleanup_under_budget_keeps_last_run:
  "os_path_exists full_world ''c''
   \<and> guard_passes roomy_sweeper full_world
   \<and> fst (scan_and_delete roomy_sweeper ''c'' (after_guard roomy_sweeper full_world))
       = Inr Returned
   \<and> total_size_under full_world ''c'' = 150
   \<and> fst (cleanup roomy_sweeper full_world) = Inr ()
   \<and> ticks (snd (snd (cleanup roomy_sweeper full_world))) = 1
   \<and> last_run roomy_sweeper = 0
   \<and> last_run (fst (snd (cleanup roomy_sweeper full_world))) = 0"
  by code_simp

section \<open>Cache names\<close>

text \<open>
  Claim C7, at a failing input. The URL has the scheme \<^verbatim>\<open>http\<close>, which is in the list, and
  the path \<^verbatim>\<open>/a/file.tar\<close>, whose last segment is \<^verbatim>\<open>file.tar\<close>. With \<^verbatim>\<open>ndir = 0\<close> the function
  returns the characters of that segment joined by slashes, not the segment; with
  \<^verbatim>\<open>ndir = 1\<close> it returns the segment before the last alone, not the last two joined.
\<close>

theorem url_to_cache_name_joins_characters:
  "urlparse ''http://host/a/file.tar'' = Inr \<lparr>scheme = ''http'', path = ''/a/file.tar''\<rparr>
   \<and> py_split (CHR ''/'') ''/a/file.tar'' = ['''', ''a'', ''file.tar'']
   \<and> url_to_cache_name ''http://host/a/file.tar'' 0 = Inr ''f/i/l/e/./t/a/r''
   \<and> url_to_cache_name ''http://host/a/file.tar'' 1 = Inr ''a''"
  by code_simp

text \<open>
  Claim C8, as amended. An input that does not start with \<^verbatim>\<open>pipe:\<close> is returned unchanged.
  For an input that starts with \<^verbatim>\<open>pipe:\<close>, if no word of the rest (the input without these
  five characters, split at single spaces) begins with a recognized scheme, the rest is
  returned: the input without its \<^verbatim>\<open>pipe:\<close> prefix.
\<close>

theorem pipe_cleaner_without_url:
  assumes "startswith spec ''pipe:'' \<longrightarrow>
           list_all (\<lambda>word. \<not> re_match_scheme word) (py_split (CHR '' '') (py_drop 5 spec))"
  shows "pipe_cleaner spec = (if startswith spec ''pipe:'' then py_drop 5 spec else spec)"
proof (cases "startswith spec ''pipe:''")
  case False
  then show ?thesis by (simp add: pipe_cleaner_def)
next
  case True
  with assms have "find re_match_scheme (py_split (CHR '' '') (py_drop 5 spec)) = None"
    by (simp add: find_None_iff list_all_iff)
  with True show ?thesis by (simp add: pipe_cleaner_def)
qed

theorem pipe_cleaner_without_url_witness:
  "startswith ''pipe:cat shard.tar'' ''pipe:''
   \<and> list_all (\<lambda>word. \<not> re_match_scheme word)
        (py_split (CHR '' '') (py_drop 5 ''pipe:cat shard.tar''))
   \<and> pipe_cleaner ''pipe:cat shard.tar'' = py_drop 5 ''pipe:cat shard.tar''
   \<and> pipe_cleaner ''shard.tar'' = ''shard.tar''"
proof -
  have a: "startswith ''pipe:cat shard.tar'' ''pipe:''" by code_simp
  have b: "list_all (\<lambda>word. \<not> re_match_scheme word)
        (py_split (CHR '' '') (py_drop 5 ''pipe:cat shard.tar''))" by code_simp
  have c: "\<not> startswith ''shard.tar'' ''pipe:''" by code_simp
  from pipe_cleaner_without_url[of "''pipe:cat shard.tar''"] a b
  have d: "pipe_cleaner ''pipe:cat shard.tar'' = py_drop 5 ''pipe:cat shard.tar''" by simp
  from pipe_cleaner_without_url[of "''shard.tar''"] c
  have e: "pipe_cleaner ''shard.tar'' = ''shard.tar''" by simp
  from a b d e show ?thesis by blast
qed

text \<open>
  The claim as stated fails for an input that starts with \<^verbatim>\<open>pipe:\<close>: no word of the input
  and no word of its rest begins with a recognized scheme, and the result is the rest, not
  the input.
\<close>

theorem pipe_cleaner_strips_prefix_counterexample:
  "list_all (\<lambda>word. \<not> re_match_scheme word) (py_split (CHR '' '') ''pipe:cat shard.tar'')
   \<and> list_all (\<lambda>word. \<not> re_match_scheme word)
        (py_split (CHR '' '') (py_drop 5 ''pipe:cat shard.tar''))
   \<and> pipe_cleaner ''pipe:cat shard.tar'' = ''cat shard.tar''
   \<and> pipe_cleaner ''pipe:cat shard.tar'' \<noteq> ''pipe:cat shard.tar''"
  by code_simp

section \<open>The downloader\<close>

lemma map_of_put_file: "map_of (put_file p f fs) q = (if q = p then Some f else map_of fs q)"
  by (induction fs) auto

lemma temp_name_neq: "temp_name w dest \<noteq> dest"
  by (simp add: temp_name_def)

lemma open_wb_lookup:
  "open_wb p w = Inr w1 \<Longrightarrow>
     map_of (files w1) q = (if q = p then Some \<lparr>content = [], ctime = clock w (ticks w)\<rparr> else map_of (files w) q)"
  by (auto simp: open_wb_def map_of_put_file split: if_splits)

lemma file_write_lookup:
  "file_write p data w = Inr w1 \<Longrightarrow> q \<noteq> p \<Longrightarrow> map_of (files w1) q = map_of (files w) q"
  by (auto simp: file_write_def map_of_put_file split: if_splits option.splits)

lemma file_write_content:
  "file_write p data w = Inr w1 \<Longrightarrow> map_of (files w) p = Some f \<Longrightarrow>
     map_of (files w1) p = Some (f\<lparr>content := content f @ data\<rparr>)"
  by (auto simp: file_write_def map_of_put_file split: if_splits option.splits)

lemma copy_loop_frame:
  "copy_loop temp reads w = (r, w') \<Longrightarrow> q \<noteq> temp \<Longrightarrow> map_of (files w') q = map_of (files w) q"
proof (induction temp reads w rule: copy_loop.induct)
  case (3 temp data reads w)
  then show ?case
    by (auto split: if_splits sum.splits simp: file_write_lookup)
qed auto

lemma copy_loop_content:
  "copy_loop temp reads w = (Inr u, w') \<Longrightarrow> map_of (files w) temp = Some f \<Longrightarrow>
     read_to_end reads \<and> map_of (files w') temp = Some (f\<lparr>content := content f @ fetched reads\<rparr>)"
proof (induction temp reads w arbitrary: f rule: copy_loop.induct)
  case (3 temp data reads w)
  show ?case
  proof (cases "data = []")
    case True
    with 3 show ?thesis by auto
  next
    case False
    with "3.prems" obtain w1 where w1: "file_write temp data w = Inr w1"
      "copy_loop temp reads w1 = (Inr u, w')"
      by (auto split: sum.splits)
    from file_write_content[OF w1(1) "3.prems"(2)]
    have "map_of (files w1) temp = Some (f\<lparr>content := content f @ data\<rparr>)" .
    from "3.IH"[OF False w1(1) w1(2) this] False show ?thesis by simp
  qed
qed auto

lemma os_rename_lookup:
  "os_rename src dst w = Inr w1 \<Longrightarrow> src \<noteq> dst \<Longrightarrow>
     map_of (files w1) q = (if q = dst then map_of (files w) src else if q = src then None else map_of (files w) q)"
  by (auto simp: os_rename_def map_of_put_file map_of_filter_neq split: option.splits if_splits)
     (simp add: map_of_eq_None_iff image_iff)




section \<open>The file cache\<close>

lemma emit_simps [simp]:
  "log (emit e w) = log w @ [e]" "files (emit e w) = files w" "dirs (emit e w) = dirs w"
  by (simp_all add: emit_def)

lemma is_file_emit [simp]: "is_file (emit e w) = is_file w"
  by (simp add: is_file_def fun_eq_iff)

lemma is_dir_emit [simp]: "is_dir (emit e w) = is_dir w"
  by (simp add: is_dir_def fun_eq_iff)

lemma downloads_append [simp]: "downloads (a @ b) = downloads a @ downloads b"
  by (induction a rule: downloads.induct) auto

lemma validations_append [simp]: "validations (a @ b) = validations a @ validations b"
  by (induction a rule: validations.induct) auto

lemma sweeps_append [simp]: "sweeps (a @ b) = sweeps a + sweeps b"
  by (induction a rule: sweeps.induct) auto

lemma new_events_append [simp]: "log w' = log w @ evs \<Longrightarrow> new_events w w' = evs"
  by (simp add: new_events_def)

lemma new_events_same [simp]: "new_events w w = []"
  by (simp add: new_events_def)

lemma map_of_filter_key:
  "map_of (filter (\<lambda>e. P (fst e)) fs) q = (if P q then map_of fs q else None)"
  by (induction fs) auto

lemma map_of_filter_self: "map_of (filter (\<lambda>e. fst e \<noteq> p) fs) p = None"
  by (induction fs) auto

lemma is_file_after_filter:
  "map_of (filter (\<lambda>e. fst e \<noteq> p) fs) q \<noteq> None \<Longrightarrow> map_of fs q \<noteq> None"
  by (cases "q = p") (simp_all add: map_of_filter_self map_of_filter_neq)

lemma os_remove_frame:
  "os_remove p w = Inr w' \<Longrightarrow>
     dirs w' = dirs w \<and> log w' = log w @ [Call_remove p] \<and> (\<forall>q. is_file w' q \<longrightarrow> is_file w q)"
  using is_file_after_filter[of p "files w"]
  by (auto simp: os_remove_def is_file_def split: if_splits)

lemma delete_loop_frame:
  "delete_loop self stack t w = (r, w') \<Longrightarrow>
     dirs w' = dirs w
     \<and> (\<exists>evs. log w' = log w @ evs \<and> downloads evs = [] \<and> validations evs = [])
     \<and> (\<forall>q. is_file w' q \<longrightarrow> is_file w q)"
proof (induction self stack t w rule: delete_loop.induct)
  case (1 self t w)
  then show ?case by simp
next
  case (2 self fname rest t w)
  show ?case
  proof (cases "t > cache_size self")
    case False
    with "2.prems" show ?thesis by simp
  next
    case True
    show ?thesis
    proof (cases "os_path_getsize w fname")
      case (Inl e)
      with True "2.prems" show ?thesis by simp
    next
      case (Inr n)
      define w1 where "w1 = (if verbose self then emit (Stderr (''# deleting '' @ fname)) w else w)"
      have w1: "dirs w1 = dirs w" "is_file w1 = is_file w"
        "\<exists>evs. log w1 = log w @ evs \<and> downloads evs = [] \<and> validations evs = []"
        by (auto simp: w1_def)
      show ?thesis
      proof (cases "os_remove fname w1")
        case (Inl e)
        with True Inr "2.prems" have "w' = w1" by (simp add: w1_def[symmetric] Let_def)
        with w1 show ?thesis by simp
      next
        case w2: (Inr w2)
        with True Inr "2.prems" have run: "delete_loop self rest (t - int n) w2 = (r, w')"
          by (simp add: w1_def[symmetric] Let_def)
        from "2.IH"[OF True Inr w1_def w2 run]
        have ih: "dirs w' = dirs w2"
          "\<exists>evs. log w' = log w2 @ evs \<and> downloads evs = [] \<and> validations evs = []"
          "\<forall>q. is_file w' q \<longrightarrow> is_file w2 q" by auto
        note fr = os_remove_frame[OF w2]
        from ih(2) w1(3) fr obtain e1 e2 where
          "log w' = log w @ e1 @ [Call_remove fname] @ e2"
          "downloads e1 = []" "validations e1 = []" "downloads e2 = []" "validations e2 = []"
          by auto
        then have "\<exists>evs. log w' = log w @ evs \<and> downloads evs = [] \<and> validations evs = []"
          by (intro exI[of _ "e1 @ [Call_remove fname] @ e2"]) simp
        moreover have "dirs w' = dirs w" using ih(1) fr w1(1) by simp
        moreover have "\<forall>q. is_file w' q \<longrightarrow> is_file w q" using ih(3) fr w1(2) by simp
        ultimately show ?thesis by simp
      qed
    qed
  qed
qed

lemma time_time_frame [simp]:
  "dirs (snd (time_time w)) = dirs w" "is_file (snd (time_time w)) = is_file w"
  "log (snd (time_time w)) = log w"
  by (simp_all add: time_time_def is_file_def fun_eq_iff)

lemma scan_and_delete_frame:
  "scan_and_delete self d w = (r, w') \<Longrightarrow>
     dirs w' = dirs w
     \<and> (\<exists>evs. log w' = log w @ evs \<and> downloads evs = [] \<and> validations evs = [])
     \<and> (\<forall>q. is_file w' q \<longrightarrow> is_file w q)"
  by (auto simp: scan_and_delete_def split: sum.splits if_splits prod.splits dest: delete_loop_frame)

lemma cleanup_frame:
  assumes "cleanup c w = (r, c', w')"
  shows "dirs w' = dirs w
     \<and> (\<exists>evs. log w' = log w @ evs \<and> downloads evs = [] \<and> validations evs = [])
     \<and> (\<forall>q. is_file w' q \<longrightarrow> is_file w q)"
proof (cases "cache_dir c")
  case None
  with assms show ?thesis by (simp add: cleanup_def)
next
  case (Some d)
  show ?thesis
  proof (cases "os_path_exists w d")
    case False
    with assms Some show ?thesis by (simp add: cleanup_def)
  next
    case True
    define w1 where "w1 = after_guard c w"
    have w1: "dirs w1 = dirs w" "is_file w1 = is_file w" "log w1 = log w"
      by (auto simp: w1_def after_guard_def split: option.splits)
    show ?thesis
    proof (cases "guard_passes c w")
      case False
      with assms Some True have "w' = w1"
        by (auto simp: cleanup_def guard_passes_def w1_def after_guard_def time_time_def
            split: option.splits)
      with w1 show ?thesis by simp
    next
      case g: True
      obtain r2 w2 where s: "scan_and_delete c d w1 = (r2, w2)" by (cases "scan_and_delete c d w1")
      note fr = scan_and_delete_frame[OF s]
      from assms have "w' = w2 \<or> w' = snd (time_time w2)"
        unfolding cleanup_guard[OF Some True g] w1_def[symmetric] s
        by (auto split: sum.splits try_outcome.splits if_splits simp: time_time_def)
      with fr w1 show ?thesis by auto
    qed
  qed
qed


lemma open_wb_other: "open_wb p w = Inr w1 \<Longrightarrow> dirs w1 = dirs w \<and> log w1 = log w"
  by (auto simp: open_wb_def split: if_splits)

lemma file_write_other: "file_write p data w = Inr w1 \<Longrightarrow> dirs w1 = dirs w \<and> log w1 = log w"
  by (auto simp: file_write_def split: if_splits option.splits)

lemma copy_loop_other: "copy_loop temp reads w = (r, w') \<Longrightarrow> dirs w' = dirs w \<and> log w' = log w"
proof (induction temp reads w rule: copy_loop.induct)
  case (3 temp data reads w)
  then show ?case by (auto split: if_splits sum.splits dest: file_write_other)
qed auto

lemma os_rename_other:
  "os_rename src dst w = Inr w1 \<Longrightarrow> dirs w1 = dirs w \<and> log w1 = log w \<and> \<not> is_dir w dst"
  by (auto simp: os_rename_def split: if_splits option.splits)

lemma download_other:
  "download url dest w = (r, w') \<Longrightarrow> dirs w' = dirs w \<and> log w' = log w @ [Call_download url dest]"
  by (auto simp: download_def Let_def split: sum.splits prod.splits
      dest!: open_wb_other copy_loop_other os_rename_other)

lemma download_success:
  assumes "download url dest w = (Inr u, w')"
  shows "is_file w' dest \<and> (\<forall>q. is_file w' q \<longrightarrow> is_file w q \<or> q = dest)"
proof -
  let ?w = "emit (Call_download url dest) w"
  let ?t = "temp_name ?w dest"
  have neq: "?t \<noteq> dest" by (rule temp_name_neq)
  from assms obtain reads w1 w2 u2 where
    o: "open_wb ?t ?w = Inr w1" and c: "copy_loop ?t reads w1 = (Inr u2, w2)"
    and r: "os_rename ?t dest w2 = Inr w'"
    by (auto simp: download_def Let_def split: sum.splits prod.splits)
  note l1 = open_wb_lookup[OF o]
  have t1: "map_of (files w1) ?t = Some \<lparr>content = [], ctime = clock ?w (ticks ?w)\<rparr>"
    using l1 by simp
  note l2 = copy_loop_content[OF c t1]
  note l3 = os_rename_lookup[OF r neq]
  have a: "is_file w' dest" using l3 l2 by (simp add: is_file_def)
  have b: "is_file w q" if "is_file w' q" "q \<noteq> dest" for q
  proof -
    from that l3 have "q \<noteq> ?t" by (auto simp: is_file_def)
    with that l3 copy_loop_frame[OF c, of q] l1 show ?thesis by (simp add: is_file_def)
  qed
  from a b show ?thesis by blast
qed

lemma rstrip_slash_idem [simp]: "rstrip_slash (rstrip_slash p) = rstrip_slash p"
  by (simp add: rstrip_slash_def)

lemma path_prefixes_elem:
  assumes "q \<in> set (path_prefixes d)"
  shows "q \<noteq> [] \<and> rstrip_slash q = q"
proof -
  define xs where "xs = d # map (\<lambda>i. take i d) (filter (\<lambda>i. d ! i = CHR ''/'') [0..<length d])"
  from assms have "q \<in> set (filter (\<lambda>p. p \<noteq> []) (map rstrip_slash xs))"
    by (simp only: path_prefixes_def xs_def set_remdups)
  then have "q \<noteq> []" and "q \<in> rstrip_slash ` set xs"
    by auto
  then obtain x where "q = rstrip_slash x" by blast
  with \<open>q \<noteq> []\<close> show ?thesis by simp
qed

lemma os_makedirs_Inr:
  "os_makedirs d w = Inr w1 \<Longrightarrow>
     files w1 = files w \<and> log w1 = log w \<and> d \<noteq> []
     \<and> \<not> list_ex (is_file w) (path_prefixes d) \<and> set (path_prefixes d) \<subseteq> set (dirs w1)
     \<and> set (dirs w) \<subseteq> set (dirs w1)"
  by (auto simp: os_makedirs_def split: if_splits)

lemma os_makedirs_again:
  assumes "d \<noteq> []" "\<not> list_ex (is_file w) (path_prefixes d)" "set (path_prefixes d) \<subseteq> set (dirs w)"
  shows "os_makedirs d w = Inr w"
proof -
  have "filter (\<lambda>p. p \<notin> set (dirs w)) (path_prefixes d) = []"
    using assms(3) by (auto simp: filter_empty_conv)
  with assms(1,2) show ?thesis by (simp add: os_makedirs_def)
qed


lemma run_cleaner_frame:
  assumes "run_cleaner c w = (r, c', w')"
  shows "dirs w' = dirs w
     \<and> (\<exists>evs. log w' = log w @ evs \<and> downloads evs = [] \<and> validations evs = []
            \<and> (c = None \<longrightarrow> evs = []))
     \<and> (\<forall>q. is_file w' q \<longrightarrow> is_file w q)"
proof (cases c)
  case None
  with assms show ?thesis by (simp add: run_cleaner_def)
next
  case (Some c0)
  with assms obtain c1 where "cleanup c0 (emit Call_cleanup w) = (r, c1, w')"
    by (auto simp: run_cleaner_def split: prod.splits)
  from cleanup_frame[OF this] obtain evs where
    "dirs w' = dirs w" "log w' = log w @ Call_cleanup # evs" "downloads evs = []"
    "validations evs = []" "\<forall>q. is_file w' q \<longrightarrow> is_file w q"
    by auto
  then show ?thesis using Some by (intro conjI exI[of _ "Call_cleanup # evs"]) simp_all
qed

lemma get_file_Inr:
  assumes "get_file self url w = (Inr p, self1, w1)"
  shows "\<exists>cache_name wA.
      url_to_name self url = Inr cache_name
    \<and> os_makedirs (os_path_join (cache_dir_of self) (os_path_dirname cache_name)) w = Inr wA
    \<and> p = os_path_join (cache_dir_of self) cache_name
    \<and> ((os_path_exists wA p \<and> self1 = self \<and> w1 = wA)
       \<or> (\<not> os_path_exists wA p \<and> (\<exists>c. self1 = self\<lparr>cleaner := c\<rparr>) \<and> dirs w1 = dirs wA
           \<and> is_file w1 p \<and> (\<forall>q. is_file w1 q \<longrightarrow> is_file wA q \<or> q = p)
           \<and> (\<exists>e1 e2. log w1 = log wA @ e1 @ [Call_download url p] @ e2
                  \<and> downloads e1 = [] \<and> downloads e2 = [])))"
proof -
  from assms obtain cache_name where n: "url_to_name self url = Inr cache_name"
    by (auto simp: get_file_def split: sum.splits)
  define destdir where "destdir = os_path_join (cache_dir_of self) (os_path_dirname cache_name)"
  define dest where "dest = os_path_join (cache_dir_of self) cache_name"
  from assms n obtain wA where m: "os_makedirs destdir w = Inr wA"
    by (auto simp: get_file_def Let_def destdir_def split: sum.splits)
  show ?thesis
  proof (cases "os_path_exists wA dest")
    case True
    with assms n m have "p = dest" "self1 = self" "w1 = wA"
      by (simp_all add: get_file_def Let_def destdir_def[symmetric] dest_def[symmetric])
    with n m True show ?thesis unfolding destdir_def dest_def by blast
  next
    case False
    define w2 where "w2 = (if verbose_of self
                           then emit (Stderr (''# downloading '' @ url @ '' to '' @ dest)) wA else wA)"
    have w2: "dirs w2 = dirs wA" "is_file w2 = is_file wA"
      "\<exists>e. log w2 = log wA @ e \<and> downloads e = [] \<and> validations e = []"
      by (auto simp: w2_def)
    obtain r3 c w3 where rc: "run_cleaner (cleaner self) w2 = (r3, c, w3)"
      by (cases "run_cleaner (cleaner self) w2") auto
    obtain r4 w4 where dl: "download url dest w3 = (r4, w4)" by (cases "download url dest w3")
    from assms n m False rc dl obtain u3 u4 where ok: "r3 = Inr u3" "r4 = Inr u4"
      by (auto simp: get_file_def Let_def destdir_def[symmetric] dest_def[symmetric]
          w2_def[symmetric] split: sum.splits)
    from assms n m False rc dl ok
    have res: "p = dest" "self1 = self\<lparr>cleaner := c\<rparr>"
      "w1 = w4 \<or> w1 = emit (Call_validator dest) w4"
      by (auto simp: get_file_def Let_def destdir_def[symmetric] dest_def[symmetric]
          w2_def[symmetric] reject_def split: sum.splits option.splits bool.splits prod.splits)
    note f3 = run_cleaner_frame[OF rc]
    note f4 = download_other[OF dl] download_success[OF dl[unfolded ok]]
    from f3 w2 obtain e1 where e1: "log w3 = log wA @ e1" "downloads e1 = []"
      by auto
    from res(3) f4 e1 obtain e2 where e2: "log w1 = log wA @ e1 @ [Call_download url dest] @ e2"
      "downloads e2 = []"
      by auto
    have d: "dirs w1 = dirs wA" using res(3) f4 f3 w2 by auto
    have a: "is_file w1 dest" using res(3) f4 by auto
    have b: "\<forall>q. is_file w1 q \<longrightarrow> is_file wA q \<or> q = dest" using res(3) f4 f3 w2 by auto
    from n m False res d a b e1 e2 show ?thesis
      unfolding destdir_def dest_def by blast
  qed
qed


lemma is_file_files_cong: "files w' = files w \<Longrightarrow> is_file w' = is_file w"
  by (simp add: is_file_def fun_eq_iff)
lemma get_file_hit:
  assumes n: "url_to_name self url = Inr cache_name"
    and m: "os_makedirs (os_path_join (cache_dir_of self) (os_path_dirname cache_name)) w = Inr w"
    and ex: "os_path_exists w (os_path_join (cache_dir_of self) cache_name)"
  shows "get_file self url w = (Inr (os_path_join (cache_dir_of self) cache_name), self, w)"
  unfolding get_file_def Let_def using n m ex by simp




lemma reject_frame:
  "reject url dest w = (e, w') \<Longrightarrow> \<exists>evs. log w' = log w @ evs \<and> sweeps evs = 0"
  by (auto simp: reject_def Let_def split: sum.splits dest!: os_remove_frame)

lemma get_file_no_cleaner:
  assumes c: "cleaner self = None" and run: "get_file self url w = (r, self', w')"
  shows "cleaner self' = None \<and> (\<exists>evs. log w' = log w @ evs \<and> sweeps evs = 0)"
proof (cases "url_to_name self url")
  case (Inl e)
  with run c show ?thesis by (simp add: get_file_def)
next
  case n: (Inr cache_name)
  define destdir where "destdir = os_path_join (cache_dir_of self) (os_path_dirname cache_name)"
  define dest where "dest = os_path_join (cache_dir_of self) cache_name"
  show ?thesis
  proof (cases "os_makedirs destdir w")
    case (Inl e)
    with run c n show ?thesis by (simp add: get_file_def destdir_def)
  next
    case m: (Inr wA)
    from os_makedirs_Inr[OF m] have logA: "log wA = log w" by blast
    show ?thesis
    proof (cases "os_path_exists wA dest")
      case True
      with run n m have "self' = self" "w' = wA"
        by (simp_all add: get_file_def Let_def destdir_def[symmetric] dest_def[symmetric])
      with c logA show ?thesis by simp
    next
      case False
      define w2 where "w2 = (if verbose_of self
                             then emit (Stderr (''# downloading '' @ url @ '' to '' @ dest)) wA else wA)"
      have w2: "\<exists>e. log w2 = log w @ e \<and> sweeps e = 0"
        using logA by (auto simp: w2_def)
      have rc: "run_cleaner (cleaner self) w2 = (Inr (), None, w2)"
        using c by (simp add: run_cleaner_def)
      obtain r4 w4 where dl: "download url dest w2 = (r4, w4)" by (cases "download url dest w2")
      from download_other[OF dl] have l4: "log w4 = log w2 @ [Call_download url dest]" by blast
      from w2 l4 obtain e4 where e4: "log w4 = log w @ e4" "sweeps e4 = 0" by auto
      have self': "self' = self\<lparr>cleaner := None\<rparr>"
        using run n m False rc dl
        by (auto simp: get_file_def Let_def destdir_def[symmetric] dest_def[symmetric]
            w2_def[symmetric] split: sum.splits option.splits bool.splits prod.splits)
      have "w' = w4 \<or> w' = emit (Call_validator dest) w4
            \<or> (\<exists>e. reject url dest (emit (Call_validator dest) w4) = (e, w'))"
        using run n m False rc dl
        by (auto simp: get_file_def Let_def destdir_def[symmetric] dest_def[symmetric]
            w2_def[symmetric] split: sum.splits option.splits bool.splits prod.splits)
      then have "\<exists>evs. log w' = log w @ evs \<and> sweeps evs = 0"
      proof (elim disjE exE)
        assume "w' = w4"
        with e4 show ?thesis by simp
      next
        assume "w' = emit (Call_validator dest) w4"
        with e4 show ?thesis by simp
      next
        fix e assume "reject url dest (emit (Call_validator dest) w4) = (e, w')"
        from reject_frame[OF this] obtain e5 where "log w' = log w4 @ [Call_validator dest] @ e5"
          "sweeps e5 = 0" by auto
        with e4 have "log w' = log w @ (e4 @ [Call_validator dest] @ e5)"
          "sweeps (e4 @ [Call_validator dest] @ e5) = 0" by simp_all
        then show ?thesis by blast
      qed
      with self' c show ?thesis by simp
    qed
  qed
qed

lemma FileCache_init_cases:
  "FileCache_init env namer d v val h n i =
     (if 0 < n then Inl (AttributeError ''cache_size'')
      else Inr ((\<lambda>name. None)
             (''url_to_name'' \<mapsto> PNamer namer,
              ''validator'' \<mapsto> (case val of None \<Rightarrow> PNone | Some f \<Rightarrow> PValidator f),
              ''handler'' \<mapsto> PHandler h,
              ''cache_dir'' \<mapsto> PStr (case d of None \<Rightarrow> default_cache_dir env | Some x \<Rightarrow> x),
              ''verbose'' \<mapsto> PBool v,
              ''cleaner'' \<mapsto> PNone)))"
  by (cases d) (simp_all add: FileCache_init_def Let_def setattr_def getattr_def)

text \<open>
  Claim C3. With \<^verbatim>\<open>cache_size > 0\<close> the constructor raises \<^verbatim>\<open>AttributeError\<close> for the
  attribute \<^verbatim>\<open>cache_size\<close>, whatever the other arguments are. When it returns an instance,
  \<^verbatim>\<open>cache_size\<close> was not positive, the attribute \<^verbatim>\<open>cleaner\<close> is \<^verbatim>\<open>None\<close>, and a call of
  \<^verbatim>\<open>get_file\<close> on the instance, for any URL in any environment, never calls \<^verbatim>\<open>cleanup\<close>
  and leaves \<^verbatim>\<open>cleaner\<close> as it is, so that this holds for every later call too.
\<close>

theorem FileCache_init_never_enables_eviction:
  "(0 < n \<longrightarrow> FileCache_init env namer d v val h n i = Inl (AttributeError ''cache_size''))
   \<and> (FileCache_init env namer d v val h n i = Inr self \<longrightarrow>
        n \<le> 0 \<and> self ''cleaner'' = Some PNone
        \<and> (\<exists>fc. FileCache_of self = Some fc \<and> cleaner fc = None
              \<and> cleaner (fst (snd (get_file fc url w))) = None
              \<and> sweeps (new_events w (snd (snd (get_file fc url w)))) = 0))"
proof (intro conjI impI)
  assume "0 < n"
  then show "FileCache_init env namer d v val h n i = Inl (AttributeError ''cache_size'')"
    by (simp add: FileCache_init_cases)
next
  assume a: "FileCache_init env namer d v val h n i = Inr self"
  then show "n \<le> 0" by (simp add: FileCache_init_cases split: if_splits)
  from a show "self ''cleaner'' = Some PNone"
    by (auto simp: FileCache_init_cases split: if_splits)
  from a obtain fc where fc: "FileCache_of self = Some fc" "cleaner fc = None"
    by (cases val) (auto simp: FileCache_init_cases FileCache_of_def split: if_splits)
  obtain r self' w' where run: "get_file fc url w = (r, self', w')"
    by (cases "get_file fc url w") auto
  from get_file_no_cleaner[OF fc(2) run] obtain evs where
    "cleaner self' = None" "log w' = log w @ evs" "sweeps evs = 0" by blast
  then have "cleaner (fst (snd (get_file fc url w))) = None"
    "sweeps (new_events w (snd (snd (get_file fc url w)))) = 0"
    by (simp_all add: run)
  with fc show "\<exists>fc. FileCache_of self = Some fc \<and> cleaner fc = None
              \<and> cleaner (fst (snd (get_file fc url w))) = None
              \<and> sweeps (new_events w (snd (snd (get_file fc url w)))) = 0"
    by blast
qed

theorem FileCache_init_never_enables_eviction_witness:
  "make_cache retrying 5 = Inl (AttributeError ''cache_size'')
   \<and> (case make_cache retrying 0 of
        Inl e \<Rightarrow> False
      | Inr self \<Rightarrow>
          self ''cleaner'' = Some PNone
          \<and> (\<exists>fc. FileCache_of self = Some fc \<and> cleaner fc = None
                \<and> cleaner (fst (snd (get_file fc ''http://host/x'' net_world))) = None
                \<and> sweeps (new_events net_world
                     (snd (snd (get_file fc ''http://host/x'' net_world)))) = 0))"
proof -
  obtain self where s: "make_cache retrying 0 = Inr self"
    by (simp add: make_cache_def FileCache_init_cases)
  note positive = FileCache_init_never_enables_eviction
    [where n = 5 and env = None and namer = default_namer and d = "Some ''c''" and v = False
       and val = "Some check_tar_format" and h = retrying and i = "Some 30", THEN conjunct1]
  note constructed = FileCache_init_never_enables_eviction
    [where n = 0 and env = None and namer = default_namer and d = "Some ''c''" and v = False
       and val = "Some check_tar_format" and h = retrying and i = "Some 30" and self = self
       and url = "''http://host/x''" and w = net_world, THEN conjunct2]
  have a: "make_cache retrying 5 = Inl (AttributeError ''cache_size'')"
    using positive by (simp add: make_cache_def)
  have b: "self ''cleaner'' = Some PNone
          \<and> (\<exists>fc. FileCache_of self = Some fc \<and> cleaner fc = None
                \<and> cleaner (fst (snd (get_file fc ''http://host/x'' net_world))) = None
                \<and> sweeps (new_events net_world
                     (snd (snd (get_file fc ''http://host/x'' net_world)))) = 0)"
    using constructed s by (simp add: make_cache_def)
  from a b s show ?thesis by simp
qed
subsection \<open>Iterating over URLs\<close>

lemma try_body_raises: "\<exists>e. fst (try_body self url w) = Inl e"
  by (cases "get_file self url w" rule: prod_cases3)
     (auto simp: try_body_def call_open_file_def split: sum.splits)

lemma retry_loop_yields_nothing: "yielded (snd (retry_loop n self url w)) = []"
proof (induction n arbitrary: self w)
  case 0
  show ?case by simp
next
  case (Suc n)
  obtain r self1 w1 where tb: "try_body self url w = (r, self1, w1)"
    by (cases "try_body self url w" rule: prod_cases3)
  with try_body_raises[of self url w] obtain e where "r = Inl e" by auto
  with tb Suc show ?case by (simp split: sum.splits bool.splits)
qed

lemma FileCache_call_yields_nothing: "yielded (FileCache_call self rs w) = []"
proof (induction rs arbitrary: self w)
  case Nil
  show ?case by simp
next
  case (Cons r rs)
  show ?case
  proof (cases "url_of r")
    case (Inl e)
    then show ?thesis by simp
  next
    case (Inr url)
    obtain b r1 where rl: "retry_loop 10 self url w = (b, r1)" by (cases "retry_loop 10 self url w")
    from retry_loop_yields_nothing[of 10 self url w] rl have y: "yielded r1 = []" by simp
    show ?thesis
    proof (cases "raised r1")
      case None
      with Inr rl y Cons show ?thesis by (simp add: Let_def)
    next
      case (Some e)
      with Inr rl y show ?thesis by simp
    qed
  qed
qed

text \<open>
  Claim C1. The claim does not hold of \<^verbatim>\<open>FileCache.__call__\<close>. The URL
  \<^verbatim>\<open>http://host/x\<close> can be fetched and opened: \<^verbatim>\<open>get_file\<close> returns the path \<^verbatim>\<open>c/x\<close> and
  \<^verbatim>\<open>open_file\<close> returns a stream over the bytes of the file. But \<^verbatim>\<open>__call__\<close> calls
  \<^verbatim>\<open>self.open_file(self.get_file(url), "rb")\<close>, with one argument more than the method
  takes: after the download every one of the ten rounds raises \<^verbatim>\<open>TypeError\<close>, which goes
  to the handler, and no record is yielded for the URL. (By
  \<open>FileCache_call_yields_nothing\<close> this is so for every instance, input and environment.)
\<close>

theorem call_never_yields_openable_url:
  "fst (get_file (cache_with retrying) ''http://host/x'' net_world) = Inr ''c/x''
   \<and> fst (open_file (cache_with retrying) ''http://host/x'' net_world)
       = Inr \<lparr>stream_name = ''c/x'', stream_data = ''tar-data''\<rparr>
   \<and> yielded (FileCache_call (cache_with retrying) [Url ''http://host/x''] net_world) = []
   \<and> raised (FileCache_call (cache_with retrying) [Url ''http://host/x''] net_world) = None
   \<and> handled (log (final_world
        (FileCache_call (cache_with retrying) [Url ''http://host/x''] net_world)))
       = replicate 10 (TypeError ''open_file() takes 2 positional arguments but 3 were given'')
   \<and> downloads (log (final_world
        (FileCache_call (cache_with retrying) [Url ''http://host/x''] net_world)))
       = [(''http://host/x'', ''c/x'')]"
  by code_simp


end
